theory Spec2Isabelle
  imports Main "HOL-Library.Multiset" "HOL-Library.Product_Lexorder"
begin

section \<open>JavaScript values and string functions\<close>

text \<open>
  Strings are lists of characters. The functions below are the JavaScript built-ins the
  services call, restricted to ASCII: \<open>trim\<close> and \<open>parseFloat\<close> strip the ASCII
  white space and line terminators (TAB, LF, VT, FF, CR, SP), \<open>toLowerCase\<close> maps
  \<open>A\<close>..\<open>Z\<close> only.
\<close>

definition isWhiteSpace :: "char \<Rightarrow> bool" where
  "isWhiteSpace c = (c \<in> set [CHR 0x09, CHR 0x0A, CHR 0x0B, CHR 0x0C, CHR 0x0D, CHR '' ''])"

definition trimStart :: "string \<Rightarrow> string" where
  "trimStart s = dropWhile isWhiteSpace s"

definition trim :: "string \<Rightarrow> string" where
  "trim s = rev (dropWhile isWhiteSpace (rev (dropWhile isWhiteSpace s)))"

text \<open>\<open>s.split(sep)\<close> for a one-character separator; the result is never empty.\<close>

fun split :: "char \<Rightarrow> string \<Rightarrow> string list" where
  "split sep [] = [[]]"
| "split sep (c # cs) =
     (if c = sep then [] # split sep cs
      else (let r = split sep cs in (c # hd r) # tl r))"

definition isUpper :: "char \<Rightarrow> bool" where
  "isUpper c = (c \<in> set ''ABCDEFGHIJKLMNOPQRSTUVWXYZ'')"

definition isLower :: "char \<Rightarrow> bool" where
  "isLower c = (c \<in> set ''abcdefghijklmnopqrstuvwxyz'')"

definition isDigit :: "char \<Rightarrow> bool" where
  "isDigit c = (c \<in> set ''0123456789'')"

definition toLowerChar :: "char \<Rightarrow> char" where
  "toLowerChar c = (if isUpper c then char_of (of_char c + (32::nat)) else c)"

definition toUpperChar :: "char \<Rightarrow> char" where
  "toUpperChar c = (if isLower c then char_of (of_char c - (32::nat)) else c)"

definition toLowerCase :: "string \<Rightarrow> string" where
  "toLowerCase s = map toLowerChar s"

definition startsWith :: "string \<Rightarrow> string \<Rightarrow> bool" where
  "startsWith s p = (take (length p) s = p)"

text \<open>\<open>s.includes(sub)\<close>: \<open>sub\<close> occurs in \<open>s\<close> as a contiguous substring.\<close>

fun includes' :: "string \<Rightarrow> string \<Rightarrow> bool" where
  "includes' [] sub = (sub = [])"
| "includes' (c # cs) sub = (startsWith (c # cs) sub \<or> includes' cs sub)"

text \<open>
  A JavaScript number, as far as the services look at it: \<open>NaN\<close>, an infinity (\<open>Infinity True\<close>
  is \<open>-Infinity\<close>), or a finite number. \<open>Dec m e\<close> is the decimal value \<open>m * 10^e\<close> that was
  read; its rounding to a double is not represented.
\<close>

datatype jsnum = NaN | Infinity bool | Dec int int

definition isNaN :: "jsnum \<Rightarrow> bool" where
  "isNaN x = (x = NaN)"

definition isFinite :: "jsnum \<Rightarrow> bool" where
  "isFinite x = (case x of Dec m e \<Rightarrow> True | _ \<Rightarrow> False)"

definition digitsVal :: "string \<Rightarrow> int" where
  "digitsVal ds = foldl (\<lambda>a c. 10 * a + (of_char c - 48)) 0 ds"

text \<open>
  A decimal literal of magnitude \<open>m * 10^e\<close> denotes a finite double exactly when it is
  below \<open>2^1024 - 2^970\<close>, the midpoint between the largest double and \<open>2^1024\<close>
  (round to nearest, ties to even); from there on the number is an infinity.
\<close>

definition overflows :: "int \<Rightarrow> int \<Rightarrow> bool" where
  "overflows m e =
     (if 0 \<le> e then (2::int) ^ 1024 - 2 ^ 970 \<le> m * 10 ^ nat e
      else ((2::int) ^ 1024 - 2 ^ 970) * 10 ^ nat (- e) \<le> m)"

definition mkNumber :: "bool \<Rightarrow> int \<Rightarrow> int \<Rightarrow> jsnum" where
  "mkNumber neg m e = (if overflows m e then Infinity neg else Dec (if neg then - m else m) e)"

text \<open>The optional sign in front of a literal or of an exponent: (is negative, the rest).\<close>

definition optSign :: "string \<Rightarrow> bool \<times> string" where
  "optSign s =
     (case s of
        [] \<Rightarrow> (False, s)
      | c # r \<Rightarrow> if c = CHR ''-'' then (True, r) else if c = CHR ''+'' then (False, r) else (False, s))"

text \<open>
  The value of the optional \<open>ExponentPart\<close> at the start of a string: \<open>e\<close> or \<open>E\<close>, an
  optional sign and at least one digit; \<open>0\<close> when there is none.
\<close>

definition exponentPart :: "string \<Rightarrow> int" where
  "exponentPart s =
     (case s of
        [] \<Rightarrow> 0
      | c # r \<Rightarrow>
          if c = CHR ''e'' \<or> c = CHR ''E'' then
            (let (neg, d) = optSign r; ds = takeWhile isDigit d
             in if ds = [] then 0 else if neg then - digitsVal ds else digitsVal ds)
          else 0)"

text \<open>
  \<open>parseFloat(s)\<close>: skip leading white space, then read the longest prefix that is a
  \<open>StrDecimalLiteral\<close> (an optional sign, then \<open>Infinity\<close> or digits with an optional
  fraction and exponent); \<open>NaN\<close> when there is no such prefix.
\<close>

definition parseFloat :: "string \<Rightarrow> jsnum" where
  "parseFloat s =
     (let (neg, u) = optSign (trimStart s) in
      if startsWith u ''Infinity'' then Infinity neg
      else
        (let ip = takeWhile isDigit u;
             r1 = dropWhile isDigit u;
             (fp, r2) =
               (case r1 of
                  [] \<Rightarrow> ([], r1)
                | c # r \<Rightarrow>
                    if c = CHR ''.'' then (takeWhile isDigit r, dropWhile isDigit r)
                    else ([], r1))
         in if ip = [] \<and> fp = [] then NaN
            else mkNumber neg (digitsVal (ip @ fp)) (exponentPart r2 - int (length fp))))"

text \<open>
  A value held by a data point: \<open>undefined\<close>, \<open>null\<close>, a number, a string, or a
  \<open>Date\<close> (\<open>DateV None\<close> is the invalid date).
\<close>

datatype jsval = Undefined | Null | Num jsnum | Str string | DateV "int option"

section \<open>Data model (models/data.model.ts)\<close>

text \<open>
  A JavaScript \<open>Date\<close> held by a \<open>DataPoint\<close> or a \<open>TimeRange\<close> is represented by its
  \<open>getTime()\<close> value, the integer number of milliseconds since the epoch; these are
  valid dates. The index signature of \<open>DataPoint\<close> is the function \<open>at_key\<close>, which
  gives \<open>Undefined\<close> for a key the object does not have.
\<close>

record DataPoint =
  datetime :: int
  latitude :: jsnum
  longitude :: jsnum
  at_key :: "string \<Rightarrow> jsval"

datatype dataType = DT_number | DT_string | DT_date

record PlotField =
  key :: string
  label :: string
  selected :: bool
  color :: string
  dataType :: dataType

record TimeRange =
  start :: int
  end' :: int

record CsvMetadata =
  headers :: "string list"
  numericFields :: "string list"
  categoricalFields :: "string list"
  dateTimeField :: "string option"
  latitudeField :: "string option"
  longitudeField :: "string option"

definition DEFAULT_COLORS :: "string list" where
  "DEFAULT_COLORS =
     [''#1f77b4'', ''#ff7f0e'', ''#2ca02c'', ''#d62728'', ''#9467bd'',
      ''#8c564b'', ''#e377c2'', ''#7f7f7f'', ''#bcbd22'', ''#17becf'',
      ''#aec7e8'', ''#ffbb78'', ''#98df8a'', ''#ff9896'', ''#c5b0d5'']"

section \<open>CsvService (services/csv.service.ts)\<close>

text \<open>Reading an array at an index: \<open>None\<close> is \<open>undefined\<close>, the index is out of range.\<close>

definition nth_opt :: "'a list \<Rightarrow> nat \<Rightarrow> 'a option" where
  "nth_opt xs i = (if i < length xs then Some (xs ! i) else None)"

text \<open>\<open>!x\<close> is false for a string that is neither \<open>null\<close> nor empty.\<close>

definition truthy :: "string option \<Rightarrow> bool" where
  "truthy x = (case x of None \<Rightarrow> False | Some s \<Rightarrow> s \<noteq> [])"

subsection \<open>isNumericField\<close>

record NumericScan =
  hasStringData :: bool
  hasNumericData :: bool
  totalValues :: nat

text \<open>The body of the loop over the data lines.\<close>

definition isNumericField_step :: "nat \<Rightarrow> NumericScan \<Rightarrow> string \<Rightarrow> NumericScan" where
  "isNumericField_step columnIndex st line =
     (let values = split CHR '','' line in
      if truthy (nth_opt values columnIndex) then
        (let value = trim (values ! columnIndex);
             st1 = st\<lparr>totalValues := totalValues st + 1\<rparr>
         in if value \<noteq> [] \<and> value \<noteq> ''null'' \<and> value \<noteq> ''NULL'' \<and> value \<noteq> ''undefined'' then
              (if \<not> isNaN (parseFloat value) \<and> isFinite (parseFloat value)
               then st1\<lparr>hasNumericData := True\<rparr>
               else st1\<lparr>hasStringData := True\<rparr>)
            else st1)
      else st)"

definition isNumericField :: "nat \<Rightarrow> string list \<Rightarrow> bool" where
  "isNumericField columnIndex dataLines =
     (let st = foldl (isNumericField_step columnIndex)
                 \<lparr>hasStringData = False, hasNumericData = False, totalValues = 0\<rparr> dataLines
      in hasNumericData st \<and> \<not> hasStringData st \<and> totalValues st > 0)"

subsection \<open>analyzeHeaders\<close>

text \<open>The callback of \<open>headers.forEach\<close>; the metadata under construction is the state.\<close>

definition analyzeHeader :: "string list \<Rightarrow> CsvMetadata \<Rightarrow> string \<times> nat \<Rightarrow> CsvMetadata" where
  "analyzeHeader dataLines md hi =
     (let (header, index) = hi;
          lowerHeader = toLowerCase header
      in if \<not> truthy (dateTimeField md)
            \<and> (includes' lowerHeader ''date'' \<or> includes' lowerHeader ''time'')
         then md\<lparr>dateTimeField := Some header\<rparr>
         else if \<not> truthy (latitudeField md)
            \<and> (includes' lowerHeader ''lat'' \<or> lowerHeader = ''y'')
         then md\<lparr>latitudeField := Some header\<rparr>
         else if \<not> truthy (longitudeField md)
            \<and> (includes' lowerHeader ''lon'' \<or> includes' lowerHeader ''lng'' \<or> lowerHeader = ''x'')
         then md\<lparr>longitudeField := Some header\<rparr>
         else if isNumericField index dataLines
         then md\<lparr>numericFields := numericFields md @ [header]\<rparr>
         else md\<lparr>categoricalFields := categoricalFields md @ [header]\<rparr>)"

definition analyzeHeaders :: "string list \<Rightarrow> string list \<Rightarrow> CsvMetadata" where
  "analyzeHeaders hs dataLines =
     foldl (analyzeHeader dataLines)
       \<lparr>headers = hs, numericFields = [], categoricalFields = [],
        dateTimeField = None, latitudeField = None, longitudeField = None\<rparr>
       (zip hs [0..<length hs])"

subsection \<open>formatFieldLabel\<close>

text \<open>\<open>replace(/_/g, ' ')\<close>\<close>

definition underscoresToSpaces :: "string \<Rightarrow> string" where
  "underscoresToSpaces s = map (\<lambda>c. if c = CHR ''_'' then CHR '' '' else c) s"

text \<open>\<open>replace(/([a-z])([A-Z])/g, '$1 $2')\<close>: the search goes on after each match.\<close>

fun splitCamelCase :: "string \<Rightarrow> string" where
  "splitCamelCase (a # b # cs) =
     (if isLower a \<and> isUpper b then a # CHR '' '' # b # splitCamelCase cs
      else a # splitCamelCase (b # cs))"
| "splitCamelCase cs = cs"

definition isWordChar :: "char \<Rightarrow> bool" where
  "isWordChar c = (isLower c \<or> isUpper c \<or> isDigit c \<or> c = CHR ''_'')"

text \<open>
  \<open>replace(/\b\w/g, l => l.toUpperCase())\<close>: a word character is put in upper case when
  the character before it is not a word character, or when it is the first.
\<close>

fun capitalizeWords :: "bool \<Rightarrow> string \<Rightarrow> string" where
  "capitalizeWords prevWord [] = []"
| "capitalizeWords prevWord (c # cs) =
     (if isWordChar c \<and> \<not> prevWord then toUpperChar c else c) # capitalizeWords (isWordChar c) cs"

definition formatFieldLabel :: "string \<Rightarrow> string" where
  "formatFieldLabel fieldName = capitalizeWords False (splitCamelCase (underscoresToSpaces fieldName))"

subsection \<open>parseCsv\<close>

datatype error = TypeError

record ParseResult =
  data' :: "(string \<rightharpoonup> jsval) list"
  metadata :: CsvMetadata
  fields' :: "PlotField list"

text \<open>\<open>ToString\<close> of a string that may be \<open>undefined\<close>, as \<open>parseFloat\<close> applies it.\<close>

definition toStringOpt :: "string option \<Rightarrow> string" where
  "toStringOpt v = (case v of None \<Rightarrow> ''undefined'' | Some s \<Rightarrow> s)"

text \<open>
  \<open>new Date(value)\<close>: the date-string parser of the engine is the parameter \<open>dateParse\<close>
  (\<open>None\<close> for a string it rejects); \<open>new Date(undefined)\<close> is the invalid date.
\<close>

definition newDate :: "(string \<Rightarrow> int option) \<Rightarrow> string option \<Rightarrow> int option" where
  "newDate dateParse v = (case v of None \<Rightarrow> None | Some s \<Rightarrow> dateParse s)"

text \<open>
  The callback of \<open>lines.slice(1).map\<close>: one data line becomes one object, a map from
  keys to values, filled in header order.
\<close>

definition parseLine ::
  "(string \<Rightarrow> int option) \<Rightarrow> CsvMetadata \<Rightarrow> string list \<Rightarrow> string \<Rightarrow> (string \<rightharpoonup> jsval)" where
  "parseLine dateParse md hs line =
     (let values = map trim (split CHR '','' line) in
      foldl (\<lambda>dataPoint (header, index).
          (let value = nth_opt values index in
           if Some header = dateTimeField md then
             dataPoint(''datetime'' \<mapsto> DateV (newDate dateParse value))
           else if Some header = latitudeField md then
             dataPoint(''latitude'' \<mapsto> Num (parseFloat (toStringOpt value)))
           else if Some header = longitudeField md then
             dataPoint(''longitude'' \<mapsto> Num (parseFloat (toStringOpt value)))
           else if header \<in> set (numericFields md) then
             (if value = Some [] \<or> value = Some ''null'' \<or> value = Some ''NULL''
                 \<or> value = Some ''undefined''
              then dataPoint(header \<mapsto> Null)
              else (let numValue = parseFloat (toStringOpt value)
                    in dataPoint(header \<mapsto> (if isNaN numValue then Null else Num numValue))))
           else dataPoint(header \<mapsto> (case value of None \<Rightarrow> Undefined | Some v \<Rightarrow> Str v))))
        Map.empty (zip hs [0..<length hs]))"

definition numericPlotFields :: "CsvMetadata \<Rightarrow> PlotField list" where
  "numericPlotFields md =
     map (\<lambda>(field, index).
           \<lparr>key = field, label = formatFieldLabel field, selected = (index < 2),
            color = DEFAULT_COLORS ! (index mod length DEFAULT_COLORS), dataType = DT_number\<rparr>)
       (let kept = filter (\<lambda>field. Some field \<noteq> latitudeField md \<and> Some field \<noteq> longitudeField md)
                     (numericFields md)
        in zip kept [0..<length kept])"

definition categoricalPlotFields :: "CsvMetadata \<Rightarrow> PlotField list" where
  "categoricalPlotFields md =
     map (\<lambda>(field, index).
           \<lparr>key = field, label = formatFieldLabel field, selected = (index < 1),
            color = DEFAULT_COLORS ! ((length (numericPlotFields md) + index) mod length DEFAULT_COLORS),
            dataType = DT_string\<rparr>)
       (zip (categoricalFields md) [0..<length (categoricalFields md)])"

text \<open>
  \<open>lines[0].split(',')\<close> throws a \<open>TypeError\<close> when \<open>lines\<close> has no first element;
  nothing else in \<open>parseCsv\<close> can throw.
\<close>

definition parseCsv :: "(string \<Rightarrow> int option) \<Rightarrow> string \<Rightarrow> error + ParseResult" where
  "parseCsv dateParse csvText =
     (let lines = split CHR 0x0A (trim csvText) in
      case nth_opt lines 0 of
        None \<Rightarrow> Inl TypeError
      | Some line0 \<Rightarrow>
          (let hs = map trim (split CHR '','' line0);
               md = analyzeHeaders hs (drop 1 lines);
               dat = map (parseLine dateParse md hs) (drop 1 lines);
               fs = numericPlotFields md @ categoricalPlotFields md
           in Inr \<lparr>data' = dat, metadata = md, fields' = fs\<rparr>))"

subsection \<open>parseFile\<close>

text \<open>
  The service's three \<open>BehaviorSubject\<close>s by their current values. \<open>parseFile\<close> is taken
  from the moment the file's text has been read: it settles the promise it returned,
  resolved with the data or rejected with the error \<open>parseCsv\<close> threw.
\<close>

record CsvService =
  dataSubject :: "(string \<rightharpoonup> jsval) list"
  metadataSubject :: "CsvMetadata option"
  availableFieldsSubject :: "PlotField list"

definition CsvService_new :: CsvService where
  "CsvService_new = \<lparr>dataSubject = [], metadataSubject = None, availableFieldsSubject = []\<rparr>"

datatype 'a promise = Resolved 'a | Rejected error

definition parseFile ::
  "(string \<Rightarrow> int option) \<Rightarrow> string \<Rightarrow> CsvService \<Rightarrow> (string \<rightharpoonup> jsval) list promise \<times> CsvService" where
  "parseFile dateParse csvText svc =
     (case parseCsv dateParse csvText of
        Inr result \<Rightarrow>
          (Resolved (data' result),
           svc\<lparr>dataSubject := data' result, metadataSubject := Some (metadata result),
               availableFieldsSubject := fields' result\<rparr>)
      | Inl e \<Rightarrow> (Rejected e, svc))"

definition getCurrentData :: "CsvService \<Rightarrow> (string \<rightharpoonup> jsval) list" where
  "getCurrentData svc = dataSubject svc"

section \<open>SyncService (services/sync.service.ts)\<close>

text \<open>
  The service holds \<open>dataBounds\<close> (initially \<open>null\<close>) and the current value of the
  \<open>BehaviorSubject\<close> \<open>zoomSubject\<close> (initially \<open>null\<close>). \<open>null\<close> is \<open>None\<close>.
  Every method takes the state and returns the updated one. The hover subject keeps no
  value, so that \<open>emitHover\<close> leaves the state as it is.
\<close>

record SyncService =
  dataBounds :: "TimeRange option"
  zoomSubject :: "TimeRange option"




definition emitHover :: "'e option \<Rightarrow> SyncService \<Rightarrow> SyncService" where
  "emitHover event s = s"


definition clearZoom :: "SyncService \<Rightarrow> SyncService" where
  "clearZoom s = s\<lparr>zoomSubject := None\<rparr>"

section \<open>Chart components (components/state-chart/state-chart.component.ts)\<close>

subsection \<open>decimateData\<close>

text \<open>
  The elements of \<open>data\<close> are references to objects: \<open>!==\<close> on them is inequality of
  references, here inequality of list elements. The loop
  \<open>for (let i = 0; i < data.length; i += step) decimated.push(data[i])\<close> does not end
  when \<open>step\<close> is \<open>0\<close> and \<open>i < data.length\<close>; that is the result \<open>None\<close>.
\<close>

function decimate_loop :: "'a list \<Rightarrow> nat \<Rightarrow> nat \<Rightarrow> 'a list \<Rightarrow> 'a list option" where
  "decimate_loop data step i decimated =
     (if i < length data then
        (if step = 0 then None
         else decimate_loop data step (i + step) (decimated @ [data ! i]))
      else Some decimated)"
  by pat_completeness auto
termination
  by (relation "measure (\<lambda>(data, step, i, decimated). length data - i)") auto

declare decimate_loop.simps [simp del]

text \<open>
  \<open>Math.ceil(data.length / targetPoints)\<close> on array lengths is the integer ceiling
  \<open>(length + targetPoints - 1) div targetPoints\<close>.
\<close>

definition decimateData :: "'a list \<Rightarrow> 'a list option" where
  "decimateData data =
     (if length data \<le> 2000 then Some data
      else
        (let targetPoints = 2000;
             step = (length data + targetPoints - 1) div targetPoints
         in case decimate_loop data step 0 [] of
              None \<Rightarrow> None
            | Some decimated \<Rightarrow>
                if nth_opt decimated (length decimated - 1) \<noteq> nth_opt data (length data - 1)
                then Some (decimated @ [data ! (length data - 1)])
                else Some decimated))"

subsection \<open>The nearest data point (onMouseMoveThrottled)\<close>

text \<open>
  Modelled from the spec: \<open>d3.bisector(accessor).left\<close> is library code, not part of the
  sources; it is the binary search for the lower-bound insertion index of \<open>x\<close> among the
  accessor's values, between \<open>lo\<close> and \<open>hi\<close>: while \<open>lo < hi\<close>, with
  \<open>mid = (lo + hi) >>> 1\<close>, go right of \<open>mid\<close> when \<open>accessor(a[mid]) < x\<close> and else
  keep \<open>hi = mid\<close>; the result is \<open>lo\<close>.
\<close>

function bisect_left :: "('a \<Rightarrow> int) \<Rightarrow> 'a list \<Rightarrow> int \<Rightarrow> nat \<Rightarrow> nat \<Rightarrow> nat" where
  "bisect_left f a x lo hi =
     (if lo < hi then
        (let mid = (lo + hi) div 2
         in if f (a ! mid) < x then bisect_left f a x (mid + 1) hi
            else bisect_left f a x lo mid)
      else lo)"
  by pat_completeness auto
termination
  by (relation "measure (\<lambda>(f, a, x, lo, hi). hi - lo)") auto

declare bisect_left.simps [simp del]

text \<open>
  The part of \<open>onMouseMoveThrottled\<close> that finds \<open>closestPoint\<close> for the instant \<open>date\<close>
  under the mouse; \<open>None\<close> is \<open>undefined\<close> (no data), which the handler ignores.
\<close>

definition closestPoint :: "DataPoint list \<Rightarrow> int \<Rightarrow> DataPoint option" where
  "closestPoint dat date =
     (let index = bisect_left datetime dat date 0 (length dat) in
      if index = 0 then nth_opt dat 0
      else if index = length dat then nth_opt dat (length dat - 1)
      else
        (let left = dat ! (index - 1);
             right = dat ! index
         in Some (if date - datetime left > datetime right - date then right else left)))"

subsection \<open>createStateSegments\<close>

record Segment = TimeRange +
  state :: string
  color' :: "string option"

record SegmentScan =
  currentState :: jsval
  segmentStart :: int
  isCurrentNull :: bool
  segments :: "Segment list"
  nullGaps :: "TimeRange list"

text \<open>
  \<open>String(v)\<close>: a string is itself; how a number or a date is printed is the parameter
  \<open>conv\<close>.
\<close>

definition String' :: "(jsval \<Rightarrow> string) \<Rightarrow> jsval \<Rightarrow> string" where
  "String' conv v =
     (case v of Str s \<Rightarrow> s | Undefined \<Rightarrow> ''undefined'' | Null \<Rightarrow> ''null'' | _ \<Rightarrow> conv v)"

text \<open>Closing the current run at the instant \<open>t\<close>: a gap when it is null, else a segment.\<close>

definition closeRun ::
  "(jsval \<Rightarrow> string) \<Rightarrow> (string \<rightharpoonup> string) \<Rightarrow> SegmentScan \<Rightarrow> int \<Rightarrow> SegmentScan" where
  "closeRun conv stateColorMap st t =
     (if isCurrentNull st then
        st\<lparr>nullGaps := nullGaps st @ [\<lparr>start = segmentStart st, end' = t\<rparr>]\<rparr>
      else
        st\<lparr>segments := segments st @
              [\<lparr>start = segmentStart st, end' = t,
                state = String' conv (currentState st),
                color' = stateColorMap (String' conv (currentState st))\<rparr>]\<rparr>)"

text \<open>The body of the loop over \<open>this.data[i]\<close>, \<open>i\<close> from \<open>1\<close>.\<close>

definition segment_step ::
  "(jsval \<Rightarrow> string) \<Rightarrow> (string \<rightharpoonup> string) \<Rightarrow> string \<Rightarrow> SegmentScan \<Rightarrow> DataPoint \<Rightarrow> SegmentScan" where
  "segment_step conv stateColorMap k st d =
     (let newState = at_key d k;
          isNewNull = (newState = Null \<or> newState = Undefined)
      in if isNewNull \<noteq> isCurrentNull st
            \<or> (\<not> isNewNull \<and> String' conv newState \<noteq> String' conv (currentState st))
         then (closeRun conv stateColorMap st (datetime d))
                \<lparr>currentState := newState, segmentStart := datetime d, isCurrentNull := isNewNull\<rparr>
         else st)"

text \<open>
  The two arrays \<open>segments\<close> and \<open>nullGaps\<close> the method builds before it draws them.
  \<open>this.data[0][this.field.key]\<close> throws a \<open>TypeError\<close> when there is no data.
\<close>

definition createStateSegments ::
  "(jsval \<Rightarrow> string) \<Rightarrow> (string \<rightharpoonup> string) \<Rightarrow> string \<Rightarrow> DataPoint list
     \<Rightarrow> error + (Segment list \<times> TimeRange list)" where
  "createStateSegments conv stateColorMap k dat =
     (case dat of
        [] \<Rightarrow> Inl TypeError
      | d0 # rest \<Rightarrow>
          (let st0 = \<lparr>currentState = at_key d0 k, segmentStart = datetime d0,
                      isCurrentNull = (at_key d0 k = Null \<or> at_key d0 k = Undefined),
                      segments = [], nullGaps = []\<rparr>;
               st = foldl (segment_step conv stateColorMap k) st0 rest;
               fin = closeRun conv stateColorMap st (datetime (dat ! (length dat - 1)))
           in Inr (segments fin, nullGaps fin)))"

section \<open>Notions of the specification\<close>

subsection \<open>Nearest data point\<close>

text \<open>
  The lower-bound insertion index of \<open>q\<close> in a list of timestamps: the number of
  leading timestamps that are before \<open>q\<close>.
\<close>

definition lowerBoundIndex :: "int list \<Rightarrow> int \<Rightarrow> nat" where
  "lowerBoundIndex ts q = length (takeWhile (\<lambda>t. t < q) ts)"

subsection \<open>Schema inference and plot fields\<close>

text \<open>
  The value of column \<open>i\<close> in a data line, trimmed; \<open>None\<close> when the row has too few
  fields.
\<close>

definition cell :: "nat \<Rightarrow> string \<Rightarrow> string option" where
  "cell i line = map_option trim (nth_opt (split CHR '','' line) i)"

text \<open>The tokens that stand for a missing value.\<close>

definition missing :: "string \<Rightarrow> bool" where
  "missing v = (v = [] \<or> v = ''null'' \<or> v = ''NULL'' \<or> v = ''undefined'')"

text \<open>The non-missing values of column \<open>i\<close>, over all data lines.\<close>

definition nonMissingValues :: "nat \<Rightarrow> string list \<Rightarrow> string list" where
  "nonMissingValues i dataLines = filter (\<lambda>v. \<not> missing v) (List.map_filter (cell i) dataLines)"

text \<open>The value parses as a finite number.\<close>

definition parsesFinite :: "string \<Rightarrow> bool" where
  "parsesFinite v = (\<not> isNaN (parseFloat v) \<and> isFinite (parseFloat v))"

text \<open>
  The numeric test of the specification: among the non-missing values at least one
  parses as a finite number and none fails to.
\<close>

definition numericColumn :: "nat \<Rightarrow> string list \<Rightarrow> bool" where
  "numericColumn i dataLines =
     ((\<exists>v\<in>set (nonMissingValues i dataLines). parsesFinite v)
      \<and> (\<forall>v\<in>set (nonMissingValues i dataLines). parsesFinite v))"

text \<open>
  The header is given the datetime, latitude or longitude role: one of the first three
  rules applies, for a role that is still free.
\<close>

definition takesRole :: "CsvMetadata \<Rightarrow> string \<Rightarrow> bool" where
  "takesRole md header =
     (let lowerHeader = toLowerCase header
      in (\<not> truthy (dateTimeField md)
            \<and> (includes' lowerHeader ''date'' \<or> includes' lowerHeader ''time''))
         \<or> (\<not> truthy (latitudeField md)
            \<and> (includes' lowerHeader ''lat'' \<or> lowerHeader = ''y''))
         \<or> (\<not> truthy (longitudeField md)
            \<and> (includes' lowerHeader ''lon'' \<or> includes' lowerHeader ''lng'' \<or> lowerHeader = ''x'')))"

text \<open>The role the specification gives a column.\<close>

datatype role = Datetime | Latitude | Longitude | Numeric | Categorical

text \<open>The three header rules, on the header in lower case.\<close>

definition matchesDatetime :: "string \<Rightarrow> bool" where
  "matchesDatetime header =
     (includes' (toLowerCase header) ''date'' \<or> includes' (toLowerCase header) ''time'')"

definition matchesLatitude :: "string \<Rightarrow> bool" where
  "matchesLatitude header =
     (includes' (toLowerCase header) ''lat'' \<or> toLowerCase header = ''y'')"

definition matchesLongitude :: "string \<Rightarrow> bool" where
  "matchesLongitude header =
     (includes' (toLowerCase header) ''lon'' \<or> includes' (toLowerCase header) ''lng''
      \<or> toLowerCase header = ''x'')"

text \<open>
  The roles of the columns, first match wins: a header takes the datetime, latitude or
  longitude role when its rule applies and no earlier header took that role (the
  flags \<open>dt\<close>, \<open>lat\<close>, \<open>lon\<close> say which are taken); every other column is numeric or
  categorical by the numeric test.
\<close>

fun columnRoles :: "string list \<Rightarrow> bool \<Rightarrow> bool \<Rightarrow> bool \<Rightarrow> (string \<times> nat) list \<Rightarrow> role list" where
  "columnRoles dataLines dt lat lon [] = []"
| "columnRoles dataLines dt lat lon ((header, i) # rest) =
     (if \<not> dt \<and> matchesDatetime header then Datetime # columnRoles dataLines True lat lon rest
      else if \<not> lat \<and> matchesLatitude header then Latitude # columnRoles dataLines dt True lon rest
      else if \<not> lon \<and> matchesLongitude header then Longitude # columnRoles dataLines dt lat True rest
      else (if numericColumn i dataLines then Numeric else Categorical)
             # columnRoles dataLines dt lat lon rest)"

text \<open>The headers that have a given role, in header order.\<close>

definition headersWithRole :: "role \<Rightarrow> string list \<Rightarrow> role list \<Rightarrow> string list" where
  "headersWithRole ro hs roles = map fst (filter (\<lambda>(h, r). r = ro) (zip hs roles))"

text \<open>For the proofs: the role's field, once the headers in \<open>hs\<close> have been seen.\<close>

definition firstOr :: "string option \<Rightarrow> string list \<Rightarrow> string option" where
  "firstOr x hs = (if truthy x then x else case hs of [] \<Rightarrow> x | h # _ \<Rightarrow> Some h)"

text \<open>The plot fields the input gives: \<open>parseCsv\<close>'s \<open>fields\<close>, for any date parser.\<close>

definition plotFieldsOf :: "string \<Rightarrow> PlotField list" where
  "plotFieldsOf csvText =
     (let lines = split CHR 0x0A (trim csvText);
          hs = map trim (split CHR '','' (hd lines));
          md = analyzeHeaders hs (drop 1 lines)
      in numericPlotFields md @ categoricalPlotFields md)"

text \<open>The numeric fields that pass the filter on the latitude and longitude names.\<close>

definition keptNumeric :: "CsvMetadata \<Rightarrow> string list" where
  "keptNumeric md = filter (\<lambda>field. Some field \<noteq> latitudeField md \<and> Some field \<noteq> longitudeField md)
                     (numericFields md)"

text \<open>A table of three columns and one row, for examples.\<close>

definition sampleCsv :: string where
  "sampleCsv = ''time,status,temp'' @ [CHR 0x0A] @ ''1,A,5''"

subsection \<open>Decimation\<close>

text \<open>The integer ceiling of \<open>n / d\<close>.\<close>

definition ceilDiv :: "nat \<Rightarrow> nat \<Rightarrow> nat" where
  "ceilDiv n d = (n + d - 1) div d"

text \<open>The elements at the indices 0, step, 2 * step, ... below the length.\<close>

definition strideSample :: "'a list \<Rightarrow> nat \<Rightarrow> 'a list" where
  "strideSample xs step = map (\<lambda>k. xs ! (k * step)) [0..<ceilDiv (length xs) step]"

subsection \<open>Segments and gaps\<close>

text \<open>The interval of a segment or of a gap.\<close>

definition ivl :: "'a TimeRange_scheme \<Rightarrow> int \<times> int" where
  "ivl r = (start r, end' r)"

text \<open>
  The intervals of the segments and of the gaps together, ordered by start; intervals
  with the same start (there are none when the timestamps are strictly ascending) are
  ordered by end.
\<close>

definition orderedIntervals :: "Segment list \<Rightarrow> TimeRange list \<Rightarrow> (int \<times> int) list" where
  "orderedIntervals segs gaps = sort (map ivl segs @ map ivl gaps)"

text \<open>Each interval ends where the next one starts.\<close>

fun contiguous :: "(int \<times> int) list \<Rightarrow> bool" where
  "contiguous (a # b # r) = (snd a = fst b \<and> contiguous (b # r))"
| "contiguous r = True"

text \<open>
  For the proofs: the test of the loop that ends the current run at a record, and the
  intervals of the runs the loop closes, in the order it closes them.
\<close>

definition runEnds :: "(jsval \<Rightarrow> string) \<Rightarrow> string \<Rightarrow> SegmentScan \<Rightarrow> DataPoint \<Rightarrow> bool" where
  "runEnds conv k st d =
     (let newState = at_key d k;
          isNewNull = (newState = Null \<or> newState = Undefined)
      in isNewNull \<noteq> isCurrentNull st
            \<or> (\<not> isNewNull \<and> String' conv newState \<noteq> String' conv (currentState st)))"

fun emitted ::
  "(jsval \<Rightarrow> string) \<Rightarrow> (string \<rightharpoonup> string) \<Rightarrow> string \<Rightarrow> SegmentScan \<Rightarrow> DataPoint list \<Rightarrow> (int \<times> int) list" where
  "emitted conv cmap k st [] = []"
| "emitted conv cmap k st (d # ds) =
     (if runEnds conv k st d then [(segmentStart st, datetime d)] else [])
     @ emitted conv cmap k (segment_step conv cmap k st d) ds"

text \<open>
  A chain from \<open>a\<close> to \<open>b\<close>: the first interval starts at \<open>a\<close>, each one ends where the
  next starts and not before its own start, and the last ends at \<open>b\<close>.
\<close>

fun chain :: "int \<Rightarrow> (int \<times> int) list \<Rightarrow> int \<Rightarrow> bool" where
  "chain a [] b = (a = b)"
| "chain a (x # r) b = (fst x = a \<and> fst x \<le> snd x \<and> chain (snd x) r b)"

text \<open>The intervals collected so far in the two arrays.\<close>

definition scanIntervals :: "SegmentScan \<Rightarrow> (int \<times> int) multiset" where
  "scanIntervals st = mset (map ivl (segments st)) + mset (map ivl (nullGaps st))"

text \<open>All runs of a non-empty data set in the order they are closed, the final run last.\<close>

definition allRuns :: "(jsval \<Rightarrow> string) \<Rightarrow> (string \<rightharpoonup> string) \<Rightarrow> string \<Rightarrow> DataPoint list \<Rightarrow> (int \<times> int) list" where
  "allRuns conv cmap k dat =
     (let st0 = \<lparr>currentState = at_key (hd dat) k, segmentStart = datetime (hd dat),
                 isCurrentNull = (at_key (hd dat) k = Null \<or> at_key (hd dat) k = Undefined),
                 segments = [], nullGaps = []\<rparr>
      in emitted conv cmap k st0 (tl dat)
         @ [(segmentStart (foldl (segment_step conv cmap k) st0 (tl dat)), datetime (last dat))])"

subsection \<open>Example data\<close>

text \<open>A data point at the instant \<open>t\<close> whose field \<open>status\<close> is \<open>v\<close>, for examples.\<close>

definition samplePoint :: "int \<Rightarrow> jsval \<Rightarrow> DataPoint" where
  "samplePoint t v =
     \<lparr>datetime = t, latitude = NaN, longitude = NaN,
      at_key = (\<lambda>k. if k = ''status'' then v else Undefined)\<rparr>"

section \<open>Properties of the schema inference\<close>

lemma trim_Nil: "trim [] = []" by (simp add: trim_def)

lemma nonMissing_Cons:
  "nonMissingValues i (line # ls) =
     (case cell i line of
        None \<Rightarrow> nonMissingValues i ls
      | Some v \<Rightarrow> if missing v then nonMissingValues i ls else v # nonMissingValues i ls)"
  by (simp add: nonMissingValues_def List.map_filter_simps split: option.splits)

lemma step_cases:
  "isNumericField_step i st line =
     (case cell i line of
        None \<Rightarrow> st
      | Some v \<Rightarrow>
          if missing v then st\<lparr>totalValues := totalValues st + (if nth_opt (split CHR '','' line) i = Some [] then 0 else 1)\<rparr>
          else if parsesFinite v then st\<lparr>totalValues := totalValues st + 1, hasNumericData := True\<rparr>
          else st\<lparr>totalValues := totalValues st + 1, hasStringData := True\<rparr>)"
  by (auto simp: isNumericField_step_def cell_def nth_opt_def truthy_def missing_def parsesFinite_def
      Let_def trim_Nil)

lemma scan_result:
  "hasNumericData (foldl (isNumericField_step i) st ls)
      = (hasNumericData st \<or> (\<exists>v\<in>set (nonMissingValues i ls). parsesFinite v))
   \<and> hasStringData (foldl (isNumericField_step i) st ls)
      = (hasStringData st \<or> (\<exists>v\<in>set (nonMissingValues i ls). \<not> parsesFinite v))
   \<and> totalValues st + length (nonMissingValues i ls) \<le> totalValues (foldl (isNumericField_step i) st ls)"
proof (induction ls arbitrary: st)
  case Nil
  then show ?case by (simp add: nonMissingValues_def List.map_filter_simps)
next
  case (Cons line ls)
  show ?case
    using Cons.IH[of "isNumericField_step i st line"]
    by (auto simp: step_cases nonMissing_Cons split: option.splits if_splits)
qed

lemma isNumericField_numericColumn: "isNumericField i ls = numericColumn i ls"
proof -
  let ?init = "\<lparr>hasStringData = False, hasNumericData = False, totalValues = 0\<rparr>"
  let ?st = "foldl (isNumericField_step i) ?init ls"
  from scan_result[of i ?init ls]
  have n: "hasNumericData ?st = (\<exists>v\<in>set (nonMissingValues i ls). parsesFinite v)"
    and s: "hasStringData ?st = (\<exists>v\<in>set (nonMissingValues i ls). \<not> parsesFinite v)"
    and t: "length (nonMissingValues i ls) \<le> totalValues ?st" by simp_all
  have "hasNumericData ?st \<Longrightarrow> 0 < totalValues ?st"
  proof -
    assume "hasNumericData ?st"
    then have "nonMissingValues i ls \<noteq> []" using n by auto
    then show ?thesis using t by (cases "nonMissingValues i ls") auto
  qed
  then show ?thesis
    unfolding isNumericField_def Let_def numericColumn_def using n s by auto
qed

lemma analyzeHeader_plain:
  assumes "\<not> takesRole md header"
  shows "analyzeHeader dataLines md (header, index) =
     (if isNumericField index dataLines then md\<lparr>numericFields := numericFields md @ [header]\<rparr>
      else md\<lparr>categoricalFields := categoricalFields md @ [header]\<rparr>)"
  using assms by (auto simp: analyzeHeader_def takesRole_def Let_def)

text \<open>
  C1: \<open>isNumericField\<close> holds exactly when, among the non-missing values of the column,
  at least one parses as a finite number and none fails to; a column that is given
  none of the datetime, latitude and longitude roles is put among the numeric fields
  when the test holds and among the categorical fields otherwise. The column with the
  values 1, 2, north, 4 is categorical.
\<close>

theorem isNumericField_all_or_nothing:
  "isNumericField i dataLines = numericColumn i dataLines
   \<and> (\<not> takesRole md header \<longrightarrow>
        analyzeHeader dataLines md (header, i) =
          (if numericColumn i dataLines
           then md\<lparr>numericFields := numericFields md @ [header]\<rparr>
           else md\<lparr>categoricalFields := categoricalFields md @ [header]\<rparr>))
   \<and> nonMissingValues 0 [''1'', ''2'', ''north'', ''4''] = [''1'', ''2'', ''north'', ''4'']
   \<and> \<not> isNumericField 0 [''1'', ''2'', ''north'', ''4'']
   \<and> numericFields (analyzeHeaders [''heading''] [''1'', ''2'', ''north'', ''4'']) = []
   \<and> categoricalFields (analyzeHeaders [''heading''] [''1'', ''2'', ''north'', ''4'']) = [''heading'']"
proof -
  have a: "isNumericField i dataLines = numericColumn i dataLines"
    by (rule isNumericField_numericColumn)
  have b: "\<not> takesRole md header \<longrightarrow>
        analyzeHeader dataLines md (header, i) =
          (if numericColumn i dataLines
           then md\<lparr>numericFields := numericFields md @ [header]\<rparr>
           else md\<lparr>categoricalFields := categoricalFields md @ [header]\<rparr>)"
    using analyzeHeader_plain[of md header dataLines i] a by simp
  have c: "nonMissingValues 0 [''1'', ''2'', ''north'', ''4''] = [''1'', ''2'', ''north'', ''4'']"
    by code_simp
  have d: "\<not> isNumericField 0 [''1'', ''2'', ''north'', ''4'']"
    by code_simp
  have e: "numericFields (analyzeHeaders [''heading''] [''1'', ''2'', ''north'', ''4'']) = []"
    by code_simp
  have f: "categoricalFields (analyzeHeaders [''heading''] [''1'', ''2'', ''north'', ''4'']) = [''heading'']"
    by code_simp
  from a b c d e f show ?thesis by blast
qed

text \<open>
  The column with the values 1, 2, an empty cell and 4 is numeric: the test holds for
  it, and so \<open>isNumericField\<close> does.
\<close>

theorem isNumericField_all_or_nothing_witness:
  "numericColumn 0 [''1'', ''2'', '''', ''4'']
   \<and> isNumericField 0 [''1'', ''2'', '''', ''4'']
   \<and> \<not> takesRole \<lparr>headers = [''temp''], numericFields = [], categoricalFields = [],
          dateTimeField = None, latitudeField = None, longitudeField = None\<rparr> ''temp''
   \<and> analyzeHeader [''1'', ''2'', '''', ''4'']
        \<lparr>headers = [''temp''], numericFields = [], categoricalFields = [],
          dateTimeField = None, latitudeField = None, longitudeField = None\<rparr> (''temp'', 0)
       = \<lparr>headers = [''temp''], numericFields = [''temp''], categoricalFields = [],
          dateTimeField = None, latitudeField = None, longitudeField = None\<rparr>"
proof -
  let ?md = "\<lparr>headers = [''temp''], numericFields = [], categoricalFields = [],
          dateTimeField = None, latitudeField = None, longitudeField = None\<rparr>"
  have n: "numericColumn 0 [''1'', ''2'', '''', ''4'']"
    unfolding numericColumn_def by code_simp
  have t: "\<not> takesRole ?md ''temp''" by code_simp
  from isNumericField_all_or_nothing[of 0 "[''1'', ''2'', '''', ''4'']" ?md "''temp''"] n t
  show ?thesis by simp
qed

section \<open>Properties of parseCsv\<close>

lemma matches_nonempty:
  "matchesDatetime h \<Longrightarrow> h \<noteq> []" "matchesLatitude h \<Longrightarrow> h \<noteq> []" "matchesLongitude h \<Longrightarrow> h \<noteq> []"
  by (auto simp: matchesDatetime_def matchesLatitude_def matchesLongitude_def toLowerCase_def)

lemma headersWithRole_Nil [simp]: "headersWithRole ro [] rs = []"
  by (simp add: headersWithRole_def)

lemma headersWithRole_Cons [simp]:
  "headersWithRole ro (h # hs) (r # rs) = (if r = ro then h # headersWithRole ro hs rs else headersWithRole ro hs rs)"
  by (simp add: headersWithRole_def)

lemma length_columnRoles [simp]: "length (columnRoles dataLines dt lat lon his) = length his"
  by (induction dataLines dt lat lon his rule: columnRoles.induct) auto

lemma analyzeHeader_step:
  "analyzeHeader dataLines md (header, i) =
     (if \<not> truthy (dateTimeField md) \<and> matchesDatetime header then md\<lparr>dateTimeField := Some header\<rparr>
      else if \<not> truthy (latitudeField md) \<and> matchesLatitude header then md\<lparr>latitudeField := Some header\<rparr>
      else if \<not> truthy (longitudeField md) \<and> matchesLongitude header then md\<lparr>longitudeField := Some header\<rparr>
      else if numericColumn i dataLines then md\<lparr>numericFields := numericFields md @ [header]\<rparr>
      else md\<lparr>categoricalFields := categoricalFields md @ [header]\<rparr>)"
  by (simp add: analyzeHeader_def matchesDatetime_def matchesLatitude_def matchesLongitude_def
      isNumericField_numericColumn Let_def)

lemma foldl_analyzeHeader:
  "let md' = foldl (analyzeHeader dataLines) md his;
       rs = columnRoles dataLines (truthy (dateTimeField md)) (truthy (latitudeField md))
              (truthy (longitudeField md)) his
   in headers md' = headers md
    \<and> numericFields md' = numericFields md @ headersWithRole Numeric (map fst his) rs
    \<and> categoricalFields md' = categoricalFields md @ headersWithRole Categorical (map fst his) rs
    \<and> dateTimeField md' = firstOr (dateTimeField md) (headersWithRole Datetime (map fst his) rs)
    \<and> latitudeField md' = firstOr (latitudeField md) (headersWithRole Latitude (map fst his) rs)
    \<and> longitudeField md' = firstOr (longitudeField md) (headersWithRole Longitude (map fst his) rs)"
proof (induction his arbitrary: md)
  case Nil
  then show ?case by (simp add: firstOr_def)
next
  case (Cons hi his)
  obtain header i where hi: "hi = (header, i)" by (cases hi)
  let ?md1 = "analyzeHeader dataLines md (header, i)"
  note IH = Cons.IH[of ?md1, unfolded Let_def]
  consider (dt) "\<not> truthy (dateTimeField md) \<and> matchesDatetime header"
    | (lat) "\<not> (\<not> truthy (dateTimeField md) \<and> matchesDatetime header)"
            "\<not> truthy (latitudeField md) \<and> matchesLatitude header"
    | (lon) "\<not> (\<not> truthy (dateTimeField md) \<and> matchesDatetime header)"
            "\<not> (\<not> truthy (latitudeField md) \<and> matchesLatitude header)"
            "\<not> truthy (longitudeField md) \<and> matchesLongitude header"
    | (plain) "\<not> (\<not> truthy (dateTimeField md) \<and> matchesDatetime header)"
            "\<not> (\<not> truthy (latitudeField md) \<and> matchesLatitude header)"
            "\<not> (\<not> truthy (longitudeField md) \<and> matchesLongitude header)"
    by blast
  then show ?case
  proof cases
    case dt
    then have m: "?md1 = md\<lparr>dateTimeField := Some header\<rparr>" by (auto simp: analyzeHeader_step)
    have t: "truthy (Some header)" using dt matches_nonempty(1) by (simp add: truthy_def)
    show ?thesis using IH dt t
      by (auto simp: m hi firstOr_def Let_def)
  next
    case lat
    then have m: "?md1 = md\<lparr>latitudeField := Some header\<rparr>" by (auto simp: analyzeHeader_step)
    have t: "truthy (Some header)" using lat matches_nonempty(2) by (simp add: truthy_def)
    show ?thesis using IH lat t
      by (auto simp: m hi firstOr_def Let_def)
  next
    case lon
    then have m: "?md1 = md\<lparr>longitudeField := Some header\<rparr>" by (auto simp: analyzeHeader_step)
    have t: "truthy (Some header)" using lon matches_nonempty(3) by (simp add: truthy_def)
    show ?thesis using IH lon t
      by (auto simp: m hi firstOr_def Let_def)
  next
    case plain
    show ?thesis
    proof (cases "numericColumn i dataLines")
      case True
      then have m: "?md1 = md\<lparr>numericFields := numericFields md @ [header]\<rparr>"
        using plain by (auto simp: analyzeHeader_step)
      show ?thesis using IH plain True by (auto simp: m hi Let_def)
    next
      case False
      then have m: "?md1 = md\<lparr>categoricalFields := categoricalFields md @ [header]\<rparr>"
        using plain by (auto simp: analyzeHeader_step)
      show ?thesis using IH plain False by (auto simp: m hi Let_def)
    qed
  qed
qed


lemma split_nonempty: "split sep s \<noteq> []"
  by (induction s) (auto simp: Let_def)

lemma parseCsv_fields': "map_sum id fields' (parseCsv dateParse csvText) = Inr (plotFieldsOf csvText)"
proof -
  obtain l ls where "split CHR 0x0A (trim csvText) = l # ls"
    using split_nonempty[of "CHR 0x0A" "trim csvText"] by (cases "split CHR 0x0A (trim csvText)") auto
  then show ?thesis
    by (simp add: parseCsv_def plotFieldsOf_def nth_opt_def Let_def)
qed

lemma analyzeHeaders_roles:
  "let md = analyzeHeaders hs dataLines;
       rs = columnRoles dataLines False False False (zip hs [0..<length hs])
   in headers md = hs
    \<and> numericFields md = headersWithRole Numeric hs rs
    \<and> categoricalFields md = headersWithRole Categorical hs rs
    \<and> dateTimeField md = firstOr None (headersWithRole Datetime hs rs)
    \<and> latitudeField md = firstOr None (headersWithRole Latitude hs rs)
    \<and> longitudeField md = firstOr None (headersWithRole Longitude hs rs)"
  using foldl_analyzeHeader[of dataLines
      "\<lparr>headers = hs, numericFields = [], categoricalFields = [],
        dateTimeField = None, latitudeField = None, longitudeField = None\<rparr>"
      "zip hs [0..<length hs]"]
  by (simp add: analyzeHeaders_def Let_def truthy_def)

lemma headersWithRole_disjoint:
  assumes "distinct hs" "ro \<noteq> ro'"
  shows "set (headersWithRole ro hs rs) \<inter> set (headersWithRole ro' hs rs) = {}"
proof -
  have d: "distinct (map fst (zip hs rs))" using assms(1) by (simp add: distinct_zipI1 map_fst_zip_take)
  { fix h assume "h \<in> set (headersWithRole ro hs rs)" "h \<in> set (headersWithRole ro' hs rs)"
    then have "(h, ro) \<in> set (zip hs rs)" "(h, ro') \<in> set (zip hs rs)"
      by (auto simp: headersWithRole_def)
    with d have "ro = ro'" by (rule eq_key_imp_eq_value)
    with assms(2) have False by simp }
  then show ?thesis by auto
qed

lemma firstOr_None_set: "firstOr None xs = Some h \<Longrightarrow> h \<in> set xs"
  by (auto simp: firstOr_def truthy_def split: list.splits)

lemma numeric_filter_distinct:
  assumes "distinct hs"
  shows "filter (\<lambda>h. Some h \<noteq> latitudeField (analyzeHeaders hs dataLines)
                   \<and> Some h \<noteq> longitudeField (analyzeHeaders hs dataLines))
           (numericFields (analyzeHeaders hs dataLines))
         = numericFields (analyzeHeaders hs dataLines)"
proof -
  let ?rs = "columnRoles dataLines False False False (zip hs [0..<length hs])"
  from analyzeHeaders_roles[of hs dataLines]
  have n: "numericFields (analyzeHeaders hs dataLines) = headersWithRole Numeric hs ?rs"
    and la: "latitudeField (analyzeHeaders hs dataLines) = firstOr None (headersWithRole Latitude hs ?rs)"
    and lo: "longitudeField (analyzeHeaders hs dataLines) = firstOr None (headersWithRole Longitude hs ?rs)"
    by (simp_all add: Let_def)
  have "\<forall>h\<in>set (headersWithRole Numeric hs ?rs).
          Some h \<noteq> firstOr None (headersWithRole Latitude hs ?rs)
          \<and> Some h \<noteq> firstOr None (headersWithRole Longitude hs ?rs)"
  proof
    fix h assume h: "h \<in> set (headersWithRole Numeric hs ?rs)"
    have "h \<notin> set (headersWithRole Latitude hs ?rs)"
      using headersWithRole_disjoint[OF assms, of Numeric Latitude ?rs] h by auto
    moreover have "h \<notin> set (headersWithRole Longitude hs ?rs)"
      using headersWithRole_disjoint[OF assms, of Numeric Longitude ?rs] h by auto
    ultimately show "Some h \<noteq> firstOr None (headersWithRole Latitude hs ?rs)
          \<and> Some h \<noteq> firstOr None (headersWithRole Longitude hs ?rs)"
      using firstOr_None_set by metis
  qed
  then show ?thesis unfolding n la lo by (simp add: filter_id_conv)
qed

lemma map_indexed:
  "map (\<lambda>(x, i). f x i) (zip xs [0..<length xs]) = map (\<lambda>i. f (xs ! i) i) [0..<length xs]"
  by (rule nth_equalityI) auto

lemma map_nth_fun: "map (\<lambda>i. f (xs ! i)) [0..<length xs] = map f xs"
  by (rule nth_equalityI) auto

lemma numericPlotFields_maps:
  "map key (numericPlotFields md) = keptNumeric md"
  "map label (numericPlotFields md) = map formatFieldLabel (keptNumeric md)"
  "map selected (numericPlotFields md) = map (\<lambda>i. i < 2) [0..<length (keptNumeric md)]"
  "map color (numericPlotFields md)
     = map (\<lambda>i. DEFAULT_COLORS ! (i mod length DEFAULT_COLORS)) [0..<length (keptNumeric md)]"
  "map dataType (numericPlotFields md) = replicate (length (keptNumeric md)) DT_number"
  "length (numericPlotFields md) = length (keptNumeric md)"
proof -
  have eq: "numericPlotFields md =
      map (\<lambda>i. \<lparr>key = keptNumeric md ! i, label = formatFieldLabel (keptNumeric md ! i),
                 selected = (i < 2), color = DEFAULT_COLORS ! (i mod length DEFAULT_COLORS),
                 dataType = DT_number\<rparr>) [0..<length (keptNumeric md)]"
    unfolding numericPlotFields_def keptNumeric_def[symmetric] Let_def by (rule map_indexed)
  show "map key (numericPlotFields md) = keptNumeric md"
    unfolding eq by (simp add: comp_def map_nth)
  show "map label (numericPlotFields md) = map formatFieldLabel (keptNumeric md)"
    unfolding eq by (simp add: comp_def map_nth_fun)
  show "map selected (numericPlotFields md) = map (\<lambda>i. i < 2) [0..<length (keptNumeric md)]"
    unfolding eq by (simp add: comp_def)
  show "map color (numericPlotFields md)
     = map (\<lambda>i. DEFAULT_COLORS ! (i mod length DEFAULT_COLORS)) [0..<length (keptNumeric md)]"
    unfolding eq by (simp add: comp_def)
  show "map dataType (numericPlotFields md) = replicate (length (keptNumeric md)) DT_number"
    unfolding eq by (simp add: comp_def map_replicate_const)
  show "length (numericPlotFields md) = length (keptNumeric md)"
    unfolding eq by simp
qed

lemma categoricalPlotFields_maps:
  "map key (categoricalPlotFields md) = categoricalFields md"
  "map label (categoricalPlotFields md) = map formatFieldLabel (categoricalFields md)"
  "map selected (categoricalPlotFields md) = map (\<lambda>i. i < 1) [0..<length (categoricalFields md)]"
  "map color (categoricalPlotFields md)
     = map (\<lambda>i. DEFAULT_COLORS ! ((length (keptNumeric md) + i) mod length DEFAULT_COLORS))
         [0..<length (categoricalFields md)]"
  "map dataType (categoricalPlotFields md) = replicate (length (categoricalFields md)) DT_string"
proof -
  have eq: "categoricalPlotFields md =
      map (\<lambda>i. \<lparr>key = categoricalFields md ! i, label = formatFieldLabel (categoricalFields md ! i),
                 selected = (i < 1),
                 color = DEFAULT_COLORS ! ((length (numericPlotFields md) + i) mod length DEFAULT_COLORS),
                 dataType = DT_string\<rparr>) [0..<length (categoricalFields md)]"
    unfolding categoricalPlotFields_def by (rule map_indexed)
  show "map key (categoricalPlotFields md) = categoricalFields md"
    unfolding eq by (simp add: comp_def map_nth)
  show "map label (categoricalPlotFields md) = map formatFieldLabel (categoricalFields md)"
    unfolding eq by (simp add: comp_def map_nth_fun)
  show "map selected (categoricalPlotFields md) = map (\<lambda>i. i < 1) [0..<length (categoricalFields md)]"
    unfolding eq by (simp add: comp_def)
  show "map color (categoricalPlotFields md)
     = map (\<lambda>i. DEFAULT_COLORS ! ((length (keptNumeric md) + i) mod length DEFAULT_COLORS))
         [0..<length (categoricalFields md)]"
    unfolding eq by (simp add: comp_def numericPlotFields_maps(6))
  show "map dataType (categoricalPlotFields md) = replicate (length (categoricalFields md)) DT_string"
    unfolding eq by (simp add: comp_def map_replicate_const)
qed

lemma palette_cycle:
  "map (\<lambda>j. DEFAULT_COLORS ! (j mod length DEFAULT_COLORS)) [0..<n + m]
     = map (\<lambda>i. DEFAULT_COLORS ! (i mod length DEFAULT_COLORS)) [0..<n]
       @ map (\<lambda>i. DEFAULT_COLORS ! ((n + i) mod length DEFAULT_COLORS)) [0..<m]"
  by (rule nth_equalityI) (auto simp: nth_append)

text \<open>
  C9, as amended: for every input, the plot fields \<open>parseCsv\<close> returns are the headers
  of the numeric columns in header order (without those whose name is the latitude or
  longitude field's; with distinct headers there are none), followed by the headers of
  the categorical columns in header order; columns with the datetime, latitude or
  longitude role are not among them. \<open>selected\<close> holds for the first two numeric and
  the first categorical field, the colors go through the palette cyclically along the
  whole sequence, and the data type is \<open>number\<close> for the numeric and \<open>string\<close> for
  the categorical fields.
\<close>

theorem parseCsv_plot_fields:
  "let lines = split CHR 0x0A (trim csvText);
       hs = map trim (split CHR '','' (hd lines));
       md = analyzeHeaders hs (drop 1 lines);
       roles = columnRoles (drop 1 lines) False False False (zip hs [0..<length hs]);
       nums = filter (\<lambda>h. Some h \<noteq> latitudeField md \<and> Some h \<noteq> longitudeField md)
                (headersWithRole Numeric hs roles);
       cats = headersWithRole Categorical hs roles;
       fs = plotFieldsOf csvText
   in map_sum id fields' (parseCsv dateParse csvText) = Inr fs
    \<and> map key fs = nums @ cats
    \<and> map selected fs = map (\<lambda>i. i < 2) [0..<length nums] @ map (\<lambda>i. i < 1) [0..<length cats]
    \<and> map color fs
        = map (\<lambda>j. DEFAULT_COLORS ! (j mod length DEFAULT_COLORS)) [0..<length nums + length cats]
    \<and> map dataType fs = replicate (length nums) DT_number @ replicate (length cats) DT_string
    \<and> (distinct hs \<longrightarrow> nums = headersWithRole Numeric hs roles)"
proof -
  define lines where "lines = split CHR 0x0A (trim csvText)"
  define hs where "hs = map trim (split CHR '','' (hd lines))"
  define md where "md = analyzeHeaders hs (drop 1 lines)"
  define roles where "roles = columnRoles (drop 1 lines) False False False (zip hs [0..<length hs])"
  define cats where "cats = headersWithRole Categorical hs roles"
  define fs where "fs = plotFieldsOf csvText"
  have r: "numericFields md = headersWithRole Numeric hs roles" "categoricalFields md = cats"
    using analyzeHeaders_roles[of hs "drop 1 lines"] by (simp_all add: md_def roles_def cats_def Let_def)
  have k: "keptNumeric md = filter (\<lambda>h. Some h \<noteq> latitudeField md \<and> Some h \<noteq> longitudeField md)
                (headersWithRole Numeric hs roles)"
    by (simp add: keptNumeric_def r)
  have fs: "fs = numericPlotFields md @ categoricalPlotFields md"
    by (simp add: fs_def plotFieldsOf_def md_def hs_def lines_def Let_def)
  have 1: "map_sum id fields' (parseCsv dateParse csvText) = Inr fs"
    unfolding fs_def by (rule parseCsv_fields')
  have 2: "map key fs = keptNumeric md @ cats"
    by (simp add: fs numericPlotFields_maps categoricalPlotFields_maps r)
  have 3: "map selected fs = map (\<lambda>i. i < 2) [0..<length (keptNumeric md)] @ map (\<lambda>i. i < 1) [0..<length cats]"
    by (simp add: fs numericPlotFields_maps categoricalPlotFields_maps r)
  have 4: "map color fs = map (\<lambda>j. DEFAULT_COLORS ! (j mod length DEFAULT_COLORS))
                            [0..<length (keptNumeric md) + length cats]"
    unfolding palette_cycle
    by (simp add: fs numericPlotFields_maps categoricalPlotFields_maps r)
  have 5: "map dataType fs = replicate (length (keptNumeric md)) DT_number @ replicate (length cats) DT_string"
    by (simp add: fs numericPlotFields_maps categoricalPlotFields_maps r)
  have 6: "distinct hs \<longrightarrow> keptNumeric md = headersWithRole Numeric hs roles"
    using numeric_filter_distinct[of hs "drop 1 lines", folded md_def]
    unfolding keptNumeric_def r by blast
  from 1 2 3 4 5 6 show ?thesis
    unfolding Let_def lines_def[symmetric] hs_def[symmetric] md_def[symmetric]
      roles_def[symmetric] cats_def[symmetric] fs_def[symmetric] k[symmetric]
    by blast
qed

lemma sampleCsv_headers:
  "map trim (split CHR '','' (hd (split CHR 0x0A (trim sampleCsv)))) = [''time'', ''status'', ''temp'']"
  by code_simp

lemma sampleCsv_fields:
  "plotFieldsOf sampleCsv =
     [\<lparr>key = ''temp'', label = ''Temp'', selected = True, color = ''#1f77b4'', dataType = DT_number\<rparr>,
      \<lparr>key = ''status'', label = ''Status'', selected = True, color = ''#ff7f0e'', dataType = DT_string\<rparr>]"
  by code_simp

theorem parseCsv_plot_fields_witness:
  "distinct (map trim (split CHR '','' (hd (split CHR 0x0A (trim sampleCsv)))))
   \<and> map_sum id fields' (parseCsv Map.empty sampleCsv) = Inr (plotFieldsOf sampleCsv)
   \<and> map key (plotFieldsOf sampleCsv) = [''temp'', ''status'']"
proof -
  have d: "distinct (map trim (split CHR '','' (hd (split CHR 0x0A (trim sampleCsv)))))"
    unfolding sampleCsv_headers by simp
  have p: "map_sum id fields' (parseCsv Map.empty sampleCsv) = Inr (plotFieldsOf sampleCsv)"
    using parseCsv_plot_fields[of sampleCsv Map.empty] by (simp only: Let_def)
  have k: "map key (plotFieldsOf sampleCsv) = [''temp'', ''status'']"
    unfolding sampleCsv_fields by simp
  from d p k show ?thesis by blast
qed

text \<open>
  The claim C9 as stated has the fields in original header order. In the sample table
  the header \<open>status\<close> comes before \<open>temp\<close>, and the fields come as \<open>temp\<close>, \<open>status\<close>.
\<close>

theorem parseCsv_order_counterexample:
  "map_sum id (headers \<circ> metadata) (parseCsv Map.empty sampleCsv) = Inr [''time'', ''status'', ''temp'']
   \<and> map_sum id (map key \<circ> fields') (parseCsv Map.empty sampleCsv) = Inr [''temp'', ''status'']"
  by code_simp

lemma emptyInput_metadata:
  "analyzeHeaders [[]] [] =
      \<lparr>headers = [[]], numericFields = [], categoricalFields = [[]],
        dateTimeField = None, latitudeField = None, longitudeField = None\<rparr>"
  by code_simp

lemma emptyInput_fields:
  "numericPlotFields
     \<lparr>headers = [[]], numericFields = [], categoricalFields = [[]],
       dateTimeField = None, latitudeField = None, longitudeField = None\<rparr>
   @ categoricalPlotFields
     \<lparr>headers = [[]], numericFields = [], categoricalFields = [[]],
       dateTimeField = None, latitudeField = None, longitudeField = None\<rparr>
   = [\<lparr>key = [], label = [], selected = True, color = ''#1f77b4'', dataType = DT_string\<rparr>]"
  by code_simp

text \<open>No input makes \<open>parseCsv\<close> fail: there is always a first line.\<close>

lemma parseCsv_total: "\<exists>r. parseCsv dateParse csvText = Inr r"
proof -
  obtain l ls where "split CHR 0x0A (trim csvText) = l # ls"
    using split_nonempty[of "CHR 0x0A" "trim csvText"] by (cases "split CHR 0x0A (trim csvText)") auto
  then show ?thesis by (simp add: parseCsv_def nth_opt_def Let_def)
qed

text \<open>
  C6, as amended: parsing the empty input does not fail. \<open>parseCsv\<close> goes on with one
  empty header and no data line: it returns no records, the empty header as the one
  categorical field, and \<open>parseFile\<close> resolves with the empty record sequence.
\<close>

theorem parseCsv_empty_input:
  "parseCsv dateParse [] =
     Inr \<lparr>data' = [],
          metadata = \<lparr>headers = [[]], numericFields = [], categoricalFields = [[]],
                      dateTimeField = None, latitudeField = None, longitudeField = None\<rparr>,
          fields' = [\<lparr>key = [], label = [], selected = True, color = ''#1f77b4'',
                      dataType = DT_string\<rparr>]\<rparr>
   \<and> fst (parseFile dateParse [] svc) = Resolved []"
proof -
  have t: "trim [] = []" by (simp add: trim_def)
  have p: "parseCsv dateParse [] =
     Inr \<lparr>data' = [], metadata = analyzeHeaders [[]] [],
          fields' = numericPlotFields (analyzeHeaders [[]] []) @ categoricalPlotFields (analyzeHeaders [[]] [])\<rparr>"
    by (simp add: parseCsv_def t nth_opt_def Let_def)
  show ?thesis unfolding parseFile_def p emptyInput_metadata emptyInput_fields by simp
qed

text \<open>
  The claim C6 as stated has the empty input fail with an error for the caller:
  \<open>parseCsv\<close> does not fail on it, and \<open>parseFile\<close> resolves.
\<close>

theorem parseCsv_empty_counterexample:
  "isl (parseCsv Map.empty []) = False
   \<and> fst (parseFile Map.empty [] CsvService_new) = Resolved []"
  by (simp add: parseFile_def parseCsv_def trim_def nth_opt_def Let_def)

section \<open>Properties of decimateData\<close>

text \<open>The loop collects the elements at \<open>i\<close>, \<open>i + step\<close>, \<open>i + 2 * step\<close>, ... and ends.\<close>

lemma ceil_div_step:
  assumes "0 < step" "i < n"
  shows "(n - i + step - 1) div step = Suc ((n - (i + step) + step - 1) div step)"
proof (cases "i + step \<le> n")
  case True
  then have "n - i + step - 1 = (n - (i + step) + step - 1) + step" using assms by simp
  then show ?thesis using assms(1) by (simp only: div_add_self2)
next
  case False
  then have a: "n - (i + step) = 0" by simp
  have "step \<le> n - i + step - 1" "n - i + step - 1 < 2 * step" using assms False by auto
  then have "(n - i + step - 1) div step = 1"
    by (metis One_nat_def assms(1) div_greater_zero_iff div_less_iff_less_mult less_2_cases_iff nat_neq_iff mult.commute)
  then show ?thesis using a assms(1) by simp
qed

lemma decimate_loop_closed:
  assumes "0 < step"
  shows "decimate_loop data step i acc =
     Some (acc @ map (\<lambda>k. data ! (i + k * step)) [0..<(length data - i + step - 1) div step])"
  using assms
proof (induction data step i acc rule: decimate_loop.induct)
  case (1 data step i decimated)
  show ?case
  proof (cases "i < length data")
    case False
    then have "(length data - i + step - 1) div step = 0" using "1.prems" by simp
    moreover have "decimate_loop data step i decimated = Some decimated"
      using False by (subst decimate_loop.simps) simp
    ultimately show ?thesis by simp
  next
    case True
    have unfold: "decimate_loop data step i decimated
        = decimate_loop data step (i + step) (decimated @ [data ! i])"
      using True "1.prems" by (subst decimate_loop.simps) simp
    have ne: "step \<noteq> 0" using "1.prems" by simp
    let ?m = "(length data - (i + step) + step - 1) div step"
    have m: "(length data - i + step - 1) div step = Suc ?m"
      using ceil_div_step[OF "1.prems" True] .
    have "map (\<lambda>k. data ! (i + k * step)) [0..<Suc ?m]
        = data ! i # map (\<lambda>k. data ! (i + step + k * step)) [0..<?m]"
      by (simp add: upt_conv_Cons map_Suc_upt[symmetric] add.assoc del: upt_Suc)
    then show ?thesis
      using "1.IH"[OF True ne "1.prems"] unfold m by simp
  qed
qed


lemma ceilDiv_pos: "0 < d \<Longrightarrow> 0 < n \<Longrightarrow> 0 < ceilDiv n d"
  unfolding ceilDiv_def by (simp add: div_greater_zero_iff)

lemma ceilDiv_le:
  assumes "0 < d" "n \<le> c * d"
  shows "ceilDiv n d \<le> c"
proof -
  have "n + d - 1 < (Suc c) * d" using assms by simp
  then have "(n + d - 1) div d < Suc c" using assms(1) by (simp add: div_less_iff_less_mult)
  then show ?thesis by (simp add: ceilDiv_def)
qed

text \<open>The last index that is sampled is the last multiple of the step below the length.\<close>

lemma last_sample_index:
  assumes "0 < d" "0 < n"
  shows "(ceilDiv n d - 1) * d < n" "n \<le> ceilDiv n d * d"
proof -
  define p where "p = ceilDiv n d * d"
  have "(n + d - 1) div d * d \<le> n + d - 1" by simp
  then have "p \<le> n + d - 1" by (simp add: p_def ceilDiv_def)
  moreover have "(ceilDiv n d - 1) * d = p - d" by (simp add: p_def diff_mult_distrib)
  ultimately show "(ceilDiv n d - 1) * d < n" using assms by linarith
  have "(n + d - 1) mod d < d" using assms(1) by simp
  moreover have "n + d - 1 = (n + d - 1) div d * d + (n + d - 1) mod d" by simp
  ultimately have "n + d - 1 < (n + d - 1) div d * d + d" by linarith
  then have "n + d - 1 < p + d" by (simp add: p_def ceilDiv_def)
  then show "n \<le> ceilDiv n d * d" using assms unfolding p_def by linarith
qed

lemma step_bounds:
  assumes "2000 < n"
  shows "2 \<le> ceilDiv n 2000" "n \<le> 2000 * ceilDiv n 2000"
proof -
  have "4000 div 2000 \<le> (n + 2000 - 1) div (2000::nat)"
    using assms by (intro div_le_mono) simp
  then show "2 \<le> ceilDiv n 2000" by (simp add: ceilDiv_def)
  show "n \<le> 2000 * ceilDiv n 2000"
    using last_sample_index(2)[of 2000 n] assms by (simp add: mult.commute)
qed

lemma decimateData_small: "length data \<le> 2000 \<Longrightarrow> decimateData data = Some data"
  by (simp add: decimateData_def)

lemma decimateData_large:
  assumes "2000 < length data"
  shows "decimateData data =
     Some (let kept = strideSample data (ceilDiv (length data) 2000)
           in if last kept \<noteq> last data then kept @ [last data] else kept)"
proof -
  let ?step = "ceilDiv (length data) 2000"
  let ?kept = "strideSample data ?step"
  have pos: "0 < ?step" using step_bounds(1)[OF assms] by simp
  have loop: "decimate_loop data ?step 0 [] = Some ?kept"
    using decimate_loop_closed[OF pos, of data 0 "[]"]
    by (simp add: strideSample_def ceilDiv_def)
  have "0 < length data" using assms by auto
  then have "0 < ceilDiv (length data) ?step" using pos by (simp add: ceilDiv_pos)
  then have ne: "?kept \<noteq> []" by (simp add: strideSample_def)
  have dne: "data \<noteq> []" using assms by auto
  have k: "nth_opt ?kept (length ?kept - 1) = Some (last ?kept)"
    using ne by (simp add: nth_opt_def last_conv_nth)
  have d: "nth_opt data (length data - 1) = Some (last data)"
    using dne by (simp add: nth_opt_def last_conv_nth)
  have l: "data ! (length data - 1) = last data" using dne by (simp add: last_conv_nth)
  have "decimateData data =
      (case decimate_loop data ?step 0 [] of
         None \<Rightarrow> None
       | Some decimated \<Rightarrow>
           if nth_opt decimated (length decimated - 1) \<noteq> nth_opt data (length data - 1)
           then Some (decimated @ [data ! (length data - 1)])
           else Some decimated)"
    using assms by (simp add: decimateData_def ceilDiv_def Let_def)
  also have "\<dots> = (if nth_opt ?kept (length ?kept - 1) \<noteq> nth_opt data (length data - 1)
           then Some (?kept @ [data ! (length data - 1)])
           else Some ?kept)"
    by (simp only: loop option.case)
  also have "\<dots> = (if last ?kept \<noteq> last data then Some (?kept @ [last data]) else Some ?kept)"
    by (simp only: k d l option.inject)
  finally show ?thesis by (simp add: Let_def)
qed

lemma length_strideSample: "length (strideSample xs step) = ceilDiv (length xs) step"
  by (simp add: strideSample_def)

lemma decimated_length:
  assumes "2000 < length data"
  shows "length (strideSample data (ceilDiv (length data) 2000)) \<le> 2000"
  unfolding length_strideSample
  using step_bounds[OF assms] by (intro ceilDiv_le) simp_all

lemma last_strideSample:
  assumes "0 < step" "xs \<noteq> []"
  shows "last (strideSample xs step) = xs ! ((ceilDiv (length xs) step - 1) * step)"
proof -
  have "0 < ceilDiv (length xs) step" using assms by (intro ceilDiv_pos) simp_all
  then show ?thesis
    by (simp add: strideSample_def last_map last_upt)
qed

lemma last_kept_distinct:
  assumes "0 < step" "xs \<noteq> []" "distinct xs"
  shows "(last (strideSample xs step) = last xs) = (step dvd (length xs - 1))"
proof -
  let ?n = "length xs"
  let ?j = "(ceilDiv ?n step - 1) * step"
  have n: "0 < ?n" using assms(2) by simp
  have j: "?j < ?n" "?n \<le> ceilDiv ?n step * step" using last_sample_index[OF assms(1) n] by auto
  have "(last (strideSample xs step) = last xs) = (xs ! ?j = xs ! (?n - 1))"
    using assms by (simp add: last_strideSample last_conv_nth)
  also have "\<dots> = (?j = ?n - 1)"
    using assms(3) j(1) n by (simp add: nth_eq_iff_index_eq)
  also have "\<dots> = (step dvd (?n - 1))"
  proof
    assume "?j = ?n - 1"
    then show "step dvd (?n - 1)" by (metis dvd_triv_right)
  next
    assume "step dvd (?n - 1)"
    then obtain k where k: "?n - 1 = step * k" by (auto simp: dvd_def)
    have "k * step = ?n - 1" using k by (simp add: mult.commute)
    then have "k * step < ceilDiv ?n step * step" using j(2) n by linarith
    then have "k < ceilDiv ?n step" by simp
    moreover have "ceilDiv ?n step - 1 \<le> k"
    proof (rule ccontr)
      assume "\<not> ceilDiv ?n step - 1 \<le> k"
      then have "Suc k \<le> ceilDiv ?n step - 1" by simp
      then have "Suc k * step \<le> ?j" by (rule mult_le_mono1)
      moreover have "Suc k * step = k * step + step" by simp
      moreover have "k * step = ?n - 1" using k by (simp add: mult.commute)
      ultimately show False using j(1) n assms(1) by linarith
    qed
    ultimately have "k = ceilDiv ?n step - 1" by simp
    then show "?j = ?n - 1" using k by (simp add: mult.commute)
  qed
  finally show ?thesis .
qed

text \<open>The 5000 records \<open>0, 1, ..., 4999\<close>: every third is kept, and the last is appended.\<close>

lemma decimateData_5000:
  "decimateData [0..<5000] = Some (map (\<lambda>k. k * 3) [0..<1667] @ [4999])"
proof -
  have step: "ceilDiv (length [0..<5000]) 2000 = 3" by (simp add: ceilDiv_def)
  have "strideSample [0..<5000] 3 = map (\<lambda>k. [0..<5000] ! (k * 3)) [0..<1667]"
    by (simp add: strideSample_def ceilDiv_def)
  also have "\<dots> = map (\<lambda>k. k * 3) [0..<1667]"
    by (rule map_cong) auto
  finally have kept: "strideSample [0..<5000] 3 = map (\<lambda>k. k * 3) [0..<1667]" .
  have "last (map (\<lambda>k. k * 3) [0..<1667]) = (4998::nat)" by (simp add: last_map)
  moreover have "last [0..<5000] = (4999::nat)" by simp
  ultimately show ?thesis
    using decimateData_large[of "[0..<5000]"] by (simp only: step kept Let_def) simp
qed

text \<open>
  The 4000 records \<open>0, 1, ..., 3999\<close> give 2001 records, more than the target, and
  these give fewer again: above the target a second pass is not the identity.
\<close>

lemma decimateData_4000:
  "decimateData [0..<4000] = Some (map (\<lambda>k. k * 2) [0..<2000] @ [3999])"
proof -
  have step: "ceilDiv (length [0..<4000]) 2000 = 2" by (simp add: ceilDiv_def)
  have "strideSample [0..<4000] 2 = map (\<lambda>k. [0..<4000] ! (k * 2)) [0..<2000]"
    by (simp add: strideSample_def ceilDiv_def)
  also have "\<dots> = map (\<lambda>k. k * 2) [0..<2000]"
    by (rule map_cong) auto
  finally have kept: "strideSample [0..<4000] 2 = map (\<lambda>k. k * 2) [0..<2000]" .
  have "last (map (\<lambda>k. k * 2) [0..<2000]) = (3998::nat)" by (simp add: last_map)
  moreover have "last [0..<4000] = (3999::nat)" by simp
  ultimately show ?thesis
    using decimateData_large[of "[0..<4000]"] by (simp only: step kept Let_def) simp
qed

lemma decimateData_4000_twice:
  "decimateData (map (\<lambda>k. k * 2) [0..<2000] @ [3999::nat])
     \<noteq> Some (map (\<lambda>k. k * 2) [0..<2000] @ [3999])"
proof -
  let ?D = "map (\<lambda>k. k * 2) [0..<2000] @ [3999::nat]"
  have len: "length ?D = 2001" by simp
  then have big: "2000 < length ?D" by simp
  have "length (strideSample ?D (ceilDiv (length ?D) 2000)) = 1001"
    unfolding length_strideSample len by (simp add: ceilDiv_def)
  then have "\<exists>E. decimateData ?D = Some E \<and> length E \<le> 1002"
    unfolding decimateData_large[OF big] by (simp add: Let_def)
  then show ?thesis using len by auto
qed

text \<open>
  C3: for a non-empty record sequence \<open>R\<close>, \<open>decimateData\<close> returns \<open>R\<close> unchanged when it
  has at most 2000 records; otherwise it keeps the records at the indices 0, step,
  2 * step, ... with step the ceiling of length / 2000, and appends the last record when
  the last record kept is not the last record (for distinct records: when the last index
  is not a multiple of the step). The result ends with the last record of \<open>R\<close> and has
  at most 2001 records.
\<close>

theorem decimateData_spec:
  assumes "R \<noteq> []"
  shows "\<exists>D. decimateData R = Some D
     \<and> (if length R \<le> 2000 then D = R
        else (let step = ceilDiv (length R) 2000; kept = strideSample R step
              in D = (if last kept \<noteq> last R then kept @ [last R] else kept)
                 \<and> (distinct R \<longrightarrow> (last kept \<noteq> last R) = (\<not> step dvd (length R - 1)))))
     \<and> last D = last R
     \<and> length D \<le> 2001"
proof (cases "length R \<le> 2000")
  case True
  then show ?thesis by (simp add: decimateData_small)
next
  case False
  then have big: "2000 < length R" by simp
  let ?step = "ceilDiv (length R) 2000"
  let ?kept = "strideSample R ?step"
  have pos: "0 < ?step" using step_bounds(1)[OF big] by simp
  have len: "length ?kept \<le> 2000" using decimated_length[OF big] .
  have dist: "distinct R \<Longrightarrow> (last ?kept \<noteq> last R) = (\<not> ?step dvd (length R - 1))"
    using last_kept_distinct[OF pos assms] by simp
  show ?thesis
    using False len dist by (simp add: decimateData_large[OF big] Let_def)
qed

theorem decimateData_spec_witness:
  "[0..<5000] \<noteq> ([]::nat list)
   \<and> decimateData [0..<5000] = Some (map (\<lambda>k. k * 3) [0..<1667] @ [4999])
   \<and> last (map (\<lambda>k. k * 3) [0..<1667] @ [4999::nat]) = last [0..<5000]
   \<and> length (map (\<lambda>k. k * 3) [0..<1667] @ [4999::nat]) \<le> 2001"
proof -
  have ne: "[0..<5000] \<noteq> ([]::nat list)" by simp
  from decimateData_spec[OF ne] decimateData_5000 ne show ?thesis by auto
qed

text \<open>
  C7: once the decimated sequence has at most 2000 records, decimating it again changes
  nothing.
\<close>

theorem decimateData_idempotent:
  assumes "decimateData R = Some D" "length D \<le> 2000"
  shows "decimateData D = Some D"
  using assms(2) by (rule decimateData_small)

theorem decimateData_idempotent_witness:
  "decimateData [0..<5000] = Some (map (\<lambda>k. k * 3) [0..<1667] @ [4999])
   \<and> length (map (\<lambda>k. k * 3) [0..<1667] @ [4999::nat]) \<le> 2000
   \<and> decimateData (map (\<lambda>k. k * 3) [0..<1667] @ [4999::nat])
       = Some (map (\<lambda>k. k * 3) [0..<1667] @ [4999])"
proof -
  have len: "length (map (\<lambda>k. k * 3) [0..<1667] @ [4999::nat]) \<le> 2000" by simp
  from decimateData_idempotent[OF decimateData_5000 len] decimateData_5000 len
  show ?thesis by simp
qed

section \<open>Properties of createStateSegments\<close>

lemma closeRun_intervals:
  "scanIntervals (closeRun conv cmap st t) = scanIntervals st + {#(segmentStart st, t)#}"
  by (simp add: closeRun_def scanIntervals_def ivl_def)

lemma segment_step_unchanged:
  "\<not> runEnds conv k st d \<Longrightarrow> segment_step conv cmap k st d = st"
  by (auto simp: segment_step_def runEnds_def Let_def)

lemma segment_step_ends:
  assumes "runEnds conv k st d"
  shows "scanIntervals (segment_step conv cmap k st d) = scanIntervals st + {#(segmentStart st, datetime d)#}"
    and "segmentStart (segment_step conv cmap k st d) = datetime d"
proof -
  have eq: "segment_step conv cmap k st d =
     (closeRun conv cmap st (datetime d))
        \<lparr>currentState := at_key d k, segmentStart := datetime d,
         isCurrentNull := (at_key d k = Null \<or> at_key d k = Undefined)\<rparr>"
    using assms unfolding segment_step_def runEnds_def Let_def by (simp cong: if_cong)
  show "segmentStart (segment_step conv cmap k st d) = datetime d" by (simp add: eq)
  have "scanIntervals (segment_step conv cmap k st d) = scanIntervals (closeRun conv cmap st (datetime d))"
    by (simp add: eq scanIntervals_def)
  then show "scanIntervals (segment_step conv cmap k st d) = scanIntervals st + {#(segmentStart st, datetime d)#}"
    by (simp add: closeRun_intervals)
qed

lemma foldl_scanIntervals:
  "scanIntervals (foldl (segment_step conv cmap k) st ds)
     = scanIntervals st + mset (emitted conv cmap k st ds)"
proof (induction ds arbitrary: st)
  case Nil
  then show ?case by simp
next
  case (Cons d ds)
  show ?case
  proof (cases "runEnds conv k st d")
    case True
    then show ?thesis using Cons.IH[of "segment_step conv cmap k st d"]
      by (simp add: segment_step_ends(1))
  next
    case False
    then show ?thesis using Cons.IH[of st] by (simp add: segment_step_unchanged)
  qed
qed

lemma chain_append: "chain a E b \<Longrightarrow> b \<le> c \<Longrightarrow> chain a (E @ [(b, c)]) c"
  by (induction E arbitrary: a) auto

text \<open>The runs closed during the scan form a chain from the start of the current run.\<close>

lemma segmentStart_foldl:
  "segmentStart (foldl (segment_step conv cmap k) st ds) \<in> insert (segmentStart st) (datetime ` set ds)"
proof (induction ds arbitrary: st)
  case Nil
  then show ?case by simp
next
  case (Cons d ds)
  show ?case
  proof (cases "runEnds conv k st d")
    case True
    then show ?thesis using Cons.IH[of "segment_step conv cmap k st d"]
      by (auto simp: segment_step_ends(2))
  next
    case False
    then show ?thesis using Cons.IH[of st] by (auto simp: segment_step_unchanged)
  qed
qed

lemma emitted_chain:
  assumes "sorted (segmentStart st # map datetime ds)"
  shows "chain (segmentStart st) (emitted conv cmap k st ds)
           (segmentStart (foldl (segment_step conv cmap k) st ds))"
  using assms
proof (induction ds arbitrary: st)
  case Nil
  then show ?case by simp
next
  case (Cons d ds)
  show ?case
  proof (cases "runEnds conv k st d")
    case True
    let ?st = "segment_step conv cmap k st d"
    have s: "segmentStart ?st = datetime d" using True by (rule segment_step_ends(2))
    have "sorted (segmentStart ?st # map datetime ds)" using Cons.prems s by simp
    from Cons.IH[OF this] show ?thesis using True s Cons.prems by simp
  next
    case False
    have "sorted (segmentStart st # map datetime ds)" using Cons.prems by auto
    from Cons.IH[OF this] show ?thesis
      using False by (simp add: segment_step_unchanged)
  qed
qed

lemma chain_bounds:
  "chain a E b \<Longrightarrow> a \<le> b \<and> (\<forall>x\<in>set E. a \<le> fst x \<and> fst x \<le> snd x \<and> snd x \<le> b)"
  by (induction E arbitrary: a) fastforce+

lemma chain_sorted: "chain a E b \<Longrightarrow> sorted E"
proof (induction E arbitrary: a)
  case Nil
  then show ?case by simp
next
  case (Cons x E)
  then have c: "chain (snd x) E b" and le: "fst x \<le> snd x" by auto
  have "\<forall>y\<in>set E. x \<le> y"
  proof
    fix y assume "y \<in> set E"
    with chain_bounds[OF c] have "snd x \<le> fst y" "fst y \<le> snd y" by auto
    with le show "x \<le> y" by (cases x, cases y) auto
  qed
  with Cons.IH[OF c] show ?case by simp
qed

lemma chain_contiguous: "chain a E b \<Longrightarrow> contiguous E"
  by (induction E arbitrary: a rule: contiguous.induct) auto

lemma chain_no_overlap: "chain a E b \<Longrightarrow> sorted_wrt (\<lambda>x y. snd x \<le> fst y) E"
proof (induction E arbitrary: a)
  case Nil
  then show ?case by simp
next
  case (Cons x E)
  then have c: "chain (snd x) E b" by auto
  with chain_bounds[OF c] Cons.IH[OF c] show ?case by auto
qed

lemma chain_ends: "chain a E b \<Longrightarrow> E \<noteq> [] \<Longrightarrow> fst (hd E) = a \<and> snd (last E) = b"
  by (induction E arbitrary: a) auto

lemma chain_union: "chain a E b \<Longrightarrow> E \<noteq> [] \<Longrightarrow> (\<Union>x\<in>set E. {fst x..snd x}) = {a..b}"
proof (induction E arbitrary: a)
  case Nil
  then show ?case by simp
next
  case (Cons x E)
  then have c: "chain (snd x) E b" and le: "fst x \<le> snd x" and a: "fst x = a" by auto
  show ?case
  proof (cases "E = []")
    case True
    with Cons.prems show ?thesis by auto
  next
    case False
    from Cons.IH[OF c False] have "(\<Union>y\<in>set E. {fst y..snd y}) = {snd x..b}" .
    moreover have "snd x \<le> b" using chain_bounds[OF c] by simp
    ultimately show ?thesis using le a by auto
  qed
qed


lemma emitted_starts:
  "fst ` set (emitted conv cmap k st ds) \<subseteq> insert (segmentStart st) (datetime ` set ds)"
proof (induction ds arbitrary: st)
  case Nil
  then show ?case by simp
next
  case (Cons d ds)
  show ?case
  proof (cases "runEnds conv k st d")
    case True
    then show ?thesis using Cons.IH[of "segment_step conv cmap k st d"]
      by (auto simp: segment_step_ends(2))
  next
    case False
    then show ?thesis using Cons.IH[of st] by (auto simp: segment_step_unchanged)
  qed
qed

text \<open>With strictly ascending timestamps no two runs start at the same instant.\<close>

lemma emitted_starts_strict:
  assumes "sorted_wrt (<) (segmentStart st # map datetime ds)"
  shows "sorted_wrt (<) (map fst (emitted conv cmap k st ds)
           @ [segmentStart (foldl (segment_step conv cmap k) st ds)])"
  using assms
proof (induction ds arbitrary: st)
  case Nil
  then show ?case by simp
next
  case (Cons d ds)
  show ?case
  proof (cases "runEnds conv k st d")
    case True
    let ?st = "segment_step conv cmap k st d"
    have s: "segmentStart ?st = datetime d" using True by (rule segment_step_ends(2))
    have srt: "sorted_wrt (<) (segmentStart ?st # map datetime ds)" using Cons.prems s by simp
    have lt: "segmentStart st < datetime d" "\<forall>t\<in>datetime ` set ds. datetime d < t"
      using Cons.prems by auto
    have "\<forall>t\<in>insert (segmentStart ?st) (datetime ` set ds). segmentStart st < t"
      using lt s by auto
    then have "\<forall>t\<in>set (map fst (emitted conv cmap k ?st ds)
                 @ [segmentStart (foldl (segment_step conv cmap k) ?st ds)]). segmentStart st < t"
      using emitted_starts[of conv cmap k ?st ds] segmentStart_foldl[of conv cmap k ?st ds]
      by auto
    with Cons.IH[OF srt] show ?thesis using True by simp
  next
    case False
    have "sorted_wrt (<) (segmentStart st # map datetime ds)" using Cons.prems by auto
    from Cons.IH[OF this] show ?thesis using False by (simp add: segment_step_unchanged)
  qed
qed

lemma sorted_le_last: "sorted xs \<Longrightarrow> x \<in> set xs \<Longrightarrow> x \<le> last xs"
  by (induction xs) (auto simp: last_ConsR)

lemma createStateSegments_runs:
  assumes "dat \<noteq> []" "sorted (map datetime dat)"
  shows "\<exists>segs gaps. createStateSegments conv cmap k dat = Inr (segs, gaps)
     \<and> orderedIntervals segs gaps = allRuns conv cmap k dat
     \<and> chain (datetime (hd dat)) (allRuns conv cmap k dat) (datetime (last dat))"
proof -
  obtain d0 rest where dat: "dat = d0 # rest" using assms(1) by (cases dat) auto
  define st0 where "st0 = \<lparr>currentState = at_key d0 k, segmentStart = datetime d0,
      isCurrentNull = (at_key d0 k = Null \<or> at_key d0 k = Undefined),
      segments = [], nullGaps = []\<rparr>"
  define st where "st = foldl (segment_step conv cmap k) st0 rest"
  define tlast where "tlast = datetime (last dat)"
  define fin where "fin = closeRun conv cmap st tlast"
  define E where "E = emitted conv cmap k st0 rest @ [(segmentStart st, tlast)]"
  have lastidx: "datetime (dat ! (length dat - 1)) = tlast"
    using assms(1) by (simp add: tlast_def last_conv_nth)
  have res: "createStateSegments conv cmap k dat = Inr (segments fin, nullGaps fin)"
    unfolding createStateSegments_def dat list.case Let_def
    using lastidx by (simp add: st0_def st_def fin_def dat)
  have E: "allRuns conv cmap k dat = E"
    by (simp add: allRuns_def E_def st_def st0_def dat tlast_def Let_def)
  have s0: "segmentStart st0 = datetime d0" by (simp add: st0_def)
  have srt: "sorted (segmentStart st0 # map datetime rest)" using assms(2) by (simp add: dat s0)
  have c0: "chain (datetime d0) (emitted conv cmap k st0 rest) (segmentStart st)"
    using emitted_chain[OF srt, of conv cmap k] by (simp add: s0 st_def)
  have "segmentStart st \<in> set (map datetime dat)"
    using segmentStart_foldl[of conv cmap k st0 rest] by (auto simp: st_def s0 dat)
  then have "segmentStart st \<le> last (map datetime dat)" using assms(2) by (rule sorted_le_last[rotated])
  then have le: "segmentStart st \<le> tlast" using assms(1) by (simp add: tlast_def last_map)
  have ch: "chain (datetime d0) E tlast" unfolding E_def using c0 le by (rule chain_append)
  have "scanIntervals st0 = {#}" by (simp add: scanIntervals_def st0_def)
  then have "scanIntervals fin = mset E"
    by (simp add: fin_def closeRun_intervals st_def foldl_scanIntervals E_def)
  then have "mset E = mset (map ivl (segments fin) @ map ivl (nullGaps fin))"
    by (simp add: scanIntervals_def)
  then have "sort (map ivl (segments fin) @ map ivl (nullGaps fin)) = E"
    using chain_sorted[OF ch] by (rule properties_for_sort)
  then have "orderedIntervals (segments fin) (nullGaps fin) = E" by (simp add: orderedIntervals_def)
  then show ?thesis using res ch E by (simp add: dat tlast_def)
qed

lemma sorted_map_fst: "sorted (E :: (int \<times> int) list) \<Longrightarrow> sorted (map fst E)"
  by (induction E) (auto simp: less_eq_prod_def)

lemma allRuns_starts_strict:
  assumes "dat \<noteq> []" "sorted_wrt (<) (map datetime dat)"
  shows "sorted_wrt (<) (map fst (allRuns conv cmap k dat))"
proof -
  obtain d0 rest where dat: "dat = d0 # rest" using assms(1) by (cases dat) auto
  let ?init = "\<lparr>currentState = at_key d0 k, segmentStart = datetime d0,
      isCurrentNull = (at_key d0 k = Null \<or> at_key d0 k = Undefined),
      segments = [], nullGaps = []\<rparr>"
  have "sorted_wrt (<) (segmentStart ?init # map datetime rest)" using assms(2) by (simp add: dat)
  from emitted_starts_strict[OF this, of conv cmap k]
  show ?thesis by (simp add: allRuns_def dat Let_def)
qed

lemma allRuns_single: "allRuns conv cmap k [d] = [(datetime d, datetime d)]"
  by (simp add: allRuns_def)

text \<open>
  C2: for a non-empty record sequence sorted by ascending timestamp and any field,
  the intervals of the segments and gaps that \<open>createStateSegments\<close> builds, ordered by
  start, are contiguous and do not overlap; the first starts at the first record's
  timestamp, the last ends at the last record's timestamp, and together they cover
  exactly the interval between the two. With a single record there is one interval of
  width zero. With strictly ascending timestamps all starts differ, so that the order
  by start is the only one.
\<close>

theorem createStateSegments_tiles:
  assumes "dat \<noteq> []" "sorted (map datetime dat)"
  shows "\<exists>segs gaps. createStateSegments conv cmap k dat = Inr (segs, gaps)
     \<and> orderedIntervals segs gaps \<noteq> []
     \<and> sorted (map fst (orderedIntervals segs gaps))
     \<and> contiguous (orderedIntervals segs gaps)
     \<and> sorted_wrt (\<lambda>x y. snd x \<le> fst y) (orderedIntervals segs gaps)
     \<and> (\<forall>x\<in>set (orderedIntervals segs gaps). fst x \<le> snd x)
     \<and> fst (hd (orderedIntervals segs gaps)) = datetime (hd dat)
     \<and> snd (last (orderedIntervals segs gaps)) = datetime (last dat)
     \<and> (\<Union>x\<in>set (orderedIntervals segs gaps). {fst x..snd x}) = {datetime (hd dat)..datetime (last dat)}
     \<and> (length dat = 1 \<longrightarrow> orderedIntervals segs gaps = [(datetime (hd dat), datetime (hd dat))])
     \<and> (sorted_wrt (<) (map datetime dat) \<longrightarrow> sorted_wrt (<) (map fst (orderedIntervals segs gaps)))"
proof -
  let ?E = "allRuns conv cmap k dat"
  from createStateSegments_runs[OF assms, of conv cmap k]
  obtain segs gaps where res: "createStateSegments conv cmap k dat = Inr (segs, gaps)"
    and ord: "orderedIntervals segs gaps = ?E"
    and ch: "chain (datetime (hd dat)) ?E (datetime (last dat))" by blast
  have ne: "?E \<noteq> []" by (simp add: allRuns_def Let_def)
  have s1: "sorted (map fst ?E)" using chain_sorted[OF ch] by (rule sorted_map_fst)
  have single: "length dat = 1 \<longrightarrow> ?E = [(datetime (hd dat), datetime (hd dat))]"
  proof
    assume "length dat = 1"
    then obtain d where "dat = [d]" by (cases dat) auto
    then show "?E = [(datetime (hd dat), datetime (hd dat))]" by (simp add: allRuns_single)
  qed
  have strict: "sorted_wrt (<) (map datetime dat) \<longrightarrow> sorted_wrt (<) (map fst ?E)"
    using allRuns_starts_strict[OF assms(1)] by blast
  show ?thesis
    using res ne s1 chain_contiguous[OF ch] chain_no_overlap[OF ch] chain_bounds[OF ch]
      chain_ends[OF ch ne] chain_union[OF ch ne] single strict
    unfolding ord[symmetric] by (intro exI[of _ segs] exI[of _ gaps]) simp
qed


theorem createStateSegments_tiles_witness:
  "[samplePoint 0 (Str ''A''), samplePoint 1 (Str ''A''), samplePoint 2 Null, samplePoint 3 (Str ''B'')] \<noteq> []
   \<and> sorted (map datetime [samplePoint 0 (Str ''A''), samplePoint 1 (Str ''A''), samplePoint 2 Null, samplePoint 3 (Str ''B'')])
   \<and> createStateSegments (\<lambda>v. []) Map.empty ''status''
        [samplePoint 0 (Str ''A''), samplePoint 1 (Str ''A''), samplePoint 2 Null, samplePoint 3 (Str ''B'')]
       = Inr ([\<lparr>start = 0, end' = 2, state = ''A'', color' = None\<rparr>,
               \<lparr>start = 3, end' = 3, state = ''B'', color' = None\<rparr>],
              [\<lparr>start = 2, end' = 3\<rparr>])
   \<and> orderedIntervals [\<lparr>start = 0, end' = 2, state = ''A'', color' = None\<rparr>,
               \<lparr>start = 3, end' = 3, state = ''B'', color' = None\<rparr>]
              [\<lparr>start = 2, end' = 3\<rparr>] = [(0, 2), (2, 3), (3, 3)]
   \<and> contiguous [(0, 2), (2, 3), (3, 3)]"
proof -
  let ?dat = "[samplePoint 0 (Str ''A''), samplePoint 1 (Str ''A''), samplePoint 2 Null, samplePoint 3 (Str ''B'')]"
  have ne: "?dat \<noteq> []" by simp
  have s: "sorted (map datetime ?dat)" by (simp add: samplePoint_def)
  have r: "createStateSegments (\<lambda>v. []) Map.empty ''status'' ?dat
       = Inr ([\<lparr>start = 0, end' = 2, state = ''A'', color' = None\<rparr>,
               \<lparr>start = 3, end' = 3, state = ''B'', color' = None\<rparr>],
              [\<lparr>start = 2, end' = 3\<rparr>])"
    by (simp add: createStateSegments_def segment_step_def closeRun_def samplePoint_def
        String'_def Let_def)
  have o: "orderedIntervals [\<lparr>start = 0, end' = 2, state = ''A'', color' = None\<rparr>,
               \<lparr>start = 3, end' = 3, state = ''B'', color' = None\<rparr>]
              [\<lparr>start = 2, end' = 3\<rparr>] = [(0, 2), (2, 3), (3, 3)]"
    by (simp add: orderedIntervals_def ivl_def)
  from createStateSegments_tiles[OF ne s, of "\<lambda>v. []" Map.empty "''status''"] ne s r o
  show ?thesis by simp
qed

section \<open>Properties of the nearest data point\<close>

text \<open>
  The binary search keeps its invariant: everything before \<open>lo\<close> is before \<open>x\<close>,
  nothing from \<open>hi\<close> on is.
\<close>

lemma bisect_left_invariant:
  assumes "sorted (map f a)" "lo \<le> hi" "hi \<le> length a"
    "\<forall>j<lo. f (a ! j) < x" "\<forall>j. hi \<le> j \<and> j < length a \<longrightarrow> x \<le> f (a ! j)"
  shows "lo \<le> bisect_left f a x lo hi \<and> bisect_left f a x lo hi \<le> hi
     \<and> (\<forall>j<bisect_left f a x lo hi. f (a ! j) < x)
     \<and> (\<forall>j. bisect_left f a x lo hi \<le> j \<and> j < length a \<longrightarrow> x \<le> f (a ! j))"
  using assms
proof (induction f a x lo hi rule: bisect_left.induct)
  case (1 f a x lo hi)
  show ?case
  proof (cases "lo < hi")
    case False
    then have "bisect_left f a x lo hi = lo" by (subst bisect_left.simps) simp
    with "1.prems" False show ?thesis by simp
  next
    case True
    define mid where "mid = (lo + hi) div 2"
    have mid: "lo \<le> mid" "mid < hi" using True by (auto simp: mid_def)
    show ?thesis
    proof (cases "f (a ! mid) < x")
      case less: True
      have below: "\<forall>j<mid + 1. f (a ! j) < x"
      proof (intro allI impI)
        fix j assume "j < mid + 1"
        then have "j \<le> mid" by simp
        moreover have "mid < length a" using mid "1.prems"(3) by simp
        ultimately have "f (a ! j) \<le> f (a ! mid)"
          using "1.prems"(1) by (simp add: sorted_iff_nth_mono)
        with less show "f (a ! j) < x" by simp
      qed
      have "lo \<le> mid + 1" "mid + 1 \<le> hi" using mid by auto
      have unfold: "bisect_left f a x lo hi = bisect_left f a x (mid + 1) hi"
        using True less by (subst bisect_left.simps) (simp add: mid_def Let_def)
      from "1.IH"(1)[OF True mid_def less "1.prems"(1) \<open>mid + 1 \<le> hi\<close> "1.prems"(3) below "1.prems"(5)]
      show ?thesis using mid unfolding unfold by simp
    next
      case ge: False
      have above: "\<forall>j. mid \<le> j \<and> j < length a \<longrightarrow> x \<le> f (a ! j)"
      proof (intro allI impI)
        fix j assume "mid \<le> j \<and> j < length a"
        then have "f (a ! mid) \<le> f (a ! j)"
          using "1.prems"(1) by (simp add: sorted_iff_nth_mono)
        with ge show "x \<le> f (a ! j)" by simp
      qed
      have "mid \<le> length a" using mid "1.prems"(3) by simp
      have unfold: "bisect_left f a x lo hi = bisect_left f a x lo mid"
        using True ge by (subst bisect_left.simps) (simp add: mid_def Let_def)
      from "1.IH"(2)[OF True mid_def ge "1.prems"(1) mid(1) \<open>mid \<le> length a\<close> "1.prems"(4) above]
      show ?thesis using mid unfolding unfold by simp
    qed
  qed
qed

text \<open>On a sorted list the binary search finds the lower-bound insertion index.\<close>

lemma bisect_left_lowerBound:
  assumes "sorted (map f a)"
  shows "bisect_left f a x 0 (length a) = lowerBoundIndex (map f a) x"
proof -
  define r where "r = bisect_left f a x 0 (length a)"
  have inv: "r \<le> length a" "\<forall>j<r. f (a ! j) < x" "\<forall>j. r \<le> j \<and> j < length a \<longrightarrow> x \<le> f (a ! j)"
    using bisect_left_invariant[OF assms, of 0 "length a" x] by (simp_all add: r_def)
  have "takeWhile (\<lambda>t. t < x) (map f a) = take r (map f a)"
  proof (rule takeWhile_eq_take_P_nth)
    fix i assume "i < r" "i < length (map f a)"
    then show "map f a ! i < x" using inv(2) by simp
  next
    assume "r < length (map f a)"
    then show "\<not> map f a ! r < x" using inv(3) by (simp add: not_less)
  qed
  then show ?thesis using inv(1) by (simp add: lowerBoundIndex_def r_def)
qed


lemma closestPoint_cases:
  assumes "sorted (map datetime dat)"
  shows "closestPoint dat q =
     (let i = lowerBoundIndex (map datetime dat) q in
      if dat = [] then None
      else if i = 0 then Some (dat ! 0)
      else if i = length dat then Some (dat ! (length dat - 1))
      else if \<bar>q - datetime (dat ! i)\<bar> < \<bar>q - datetime (dat ! (i - 1))\<bar> then Some (dat ! i)
      else Some (dat ! (i - 1)))"
proof -
  define i where "i = lowerBoundIndex (map datetime dat) q"
  have bl: "bisect_left datetime dat q 0 (length dat) = i"
    using bisect_left_lowerBound[OF assms] by (simp add: i_def)
  have ile: "i \<le> length dat"
    unfolding i_def lowerBoundIndex_def using length_takeWhile_le[of _ "map datetime dat"] by simp
  have inv: "\<forall>j<i. datetime (dat ! j) < q" "\<forall>j. i \<le> j \<and> j < length dat \<longrightarrow> q \<le> datetime (dat ! j)"
    using bisect_left_invariant[OF assms, of 0 "length dat" q] bl by simp_all
  show ?thesis
  proof (cases "i = 0 \<or> i = length dat")
    case True
    then show ?thesis using bl ile
      by (auto simp: closestPoint_def i_def[symmetric] nth_opt_def Let_def)
  next
    case False
    then have mid: "0 < i" "i < length dat" using ile by auto
    have l: "datetime (dat ! (i - 1)) < q" using inv(1) mid by simp
    have r: "q \<le> datetime (dat ! i)" using inv(2) mid by simp
    have "(q - datetime (dat ! (i - 1)) > datetime (dat ! i) - q)
        = (\<bar>q - datetime (dat ! i)\<bar> < \<bar>q - datetime (dat ! (i - 1))\<bar>)"
      using l r by auto
    then show ?thesis using False mid bl
      by (auto simp: closestPoint_def i_def[symmetric] Let_def)
  qed
qed

lemma lowerBoundIndex_exact:
  assumes "sorted_wrt (<) ts" "j < length ts"
  shows "lowerBoundIndex ts (ts ! j) = j"
proof -
  have "takeWhile (\<lambda>t. t < ts ! j) ts = take j ts"
  proof (rule takeWhile_eq_take_P_nth)
    fix i assume "i < j" "i < length ts"
    then show "ts ! i < ts ! j" using assms by (simp add: sorted_wrt_nth_less)
  next
    show "\<not> ts ! j < ts ! j" by simp
  qed
  then show ?thesis using assms(2) by (simp add: lowerBoundIndex_def)
qed

text \<open>
  C4, as amended: on records sorted by ascending timestamp, the index the binary search
  computes is the lower-bound insertion index of the query; at index \<open>0\<close> the first
  record is returned, at index \<open>length\<close> the last one, and otherwise the successor
  (at the index) when it is strictly closer to the query than the predecessor, and the
  predecessor when it is closer or equally close: a tie goes to the left neighbour.
  Without records nothing is returned.
\<close>

theorem closestPoint_nearest:
  assumes "sorted (map datetime dat)"
  shows "bisect_left datetime dat q 0 (length dat) = lowerBoundIndex (map datetime dat) q
     \<and> closestPoint dat q =
        (let i = lowerBoundIndex (map datetime dat) q in
         if dat = [] then None
         else if i = 0 then Some (dat ! 0)
         else if i = length dat then Some (dat ! (length dat - 1))
         else if \<bar>q - datetime (dat ! i)\<bar> < \<bar>q - datetime (dat ! (i - 1))\<bar> then Some (dat ! i)
         else Some (dat ! (i - 1)))"
  using bisect_left_lowerBound[OF assms] closestPoint_cases[OF assms] by simp

theorem closestPoint_nearest_witness:
  "sorted (map datetime [samplePoint 0 Null, samplePoint 10 Null, samplePoint 20 Null])
   \<and> lowerBoundIndex (map datetime [samplePoint 0 Null, samplePoint 10 Null, samplePoint 20 Null]) 16 = 2
   \<and> closestPoint [samplePoint 0 Null, samplePoint 10 Null, samplePoint 20 Null] 16
       = Some (samplePoint 20 Null)
   \<and> closestPoint [samplePoint 0 Null, samplePoint 10 Null, samplePoint 20 Null] 15
       = Some (samplePoint 10 Null)"
proof -
  let ?dat = "[samplePoint 0 Null, samplePoint 10 Null, samplePoint 20 Null]"
  have s: "sorted (map datetime ?dat)" by (simp add: samplePoint_def)
  have i16: "lowerBoundIndex (map datetime ?dat) 16 = 2"
    by (simp add: lowerBoundIndex_def samplePoint_def)
  have i15: "lowerBoundIndex (map datetime ?dat) 15 = 2"
    by (simp add: lowerBoundIndex_def samplePoint_def)
  have d: "datetime (samplePoint 10 Null) = 10" "datetime (samplePoint 20 Null) = 20"
    by (simp_all add: samplePoint_def)
  from closestPoint_nearest[OF s, of 16] closestPoint_nearest[OF s, of 15] s i16 i15 d
  show ?thesis by (simp add: Let_def)
qed

text \<open>
  The claim C4 as stated gives a tie to the successor. For the records at \<open>0\<close> and \<open>10\<close>
  and the query \<open>5\<close> the index is \<open>1\<close>, both neighbours are at distance \<open>5\<close>, and the
  predecessor is returned, not the successor.
\<close>

theorem closestPoint_tie_counterexample:
  "sorted (map datetime [samplePoint 0 Null, samplePoint 10 Null])
   \<and> lowerBoundIndex (map datetime [samplePoint 0 Null, samplePoint 10 Null]) 5 = 1
   \<and> \<bar>5 - datetime (samplePoint 0 Null)\<bar> = \<bar>5 - datetime (samplePoint 10 Null)\<bar>
   \<and> closestPoint [samplePoint 0 Null, samplePoint 10 Null] 5 = Some (samplePoint 0 Null)
   \<and> closestPoint [samplePoint 0 Null, samplePoint 10 Null] 5 \<noteq> Some (samplePoint 10 Null)"
  by (simp add: closestPoint_def samplePoint_def lowerBoundIndex_def Let_def nth_opt_def
      bisect_left.simps)

text \<open>
  C8: on records sorted by strictly ascending timestamp, the query that is exactly the
  timestamp of a record returns that record.
\<close>

theorem closestPoint_exact:
  assumes "sorted_wrt (<) (map datetime dat)" "j < length dat"
  shows "closestPoint dat (datetime (dat ! j)) = Some (dat ! j)"
proof -
  have s: "sorted (map datetime dat)" using assms(1) by (rule strict_sorted_imp_sorted)
  have i: "lowerBoundIndex (map datetime dat) (datetime (dat ! j)) = j"
    using lowerBoundIndex_exact[of "map datetime dat" j] assms by simp
  have "dat \<noteq> []" using assms(2) by auto
  moreover have "0 < j \<Longrightarrow> datetime (dat ! (j - 1)) < datetime (dat ! j)"
    using sorted_wrt_nth_less[OF assms(1), of "j - 1" j] assms(2) by simp
  ultimately show ?thesis
    using closestPoint_cases[OF s, of "datetime (dat ! j)"] i assms(2)
    by (auto simp: Let_def)
qed

theorem closestPoint_exact_witness:
  "sorted_wrt (<) (map datetime [samplePoint 0 Null, samplePoint 10 Null, samplePoint 20 Null])
   \<and> closestPoint [samplePoint 0 Null, samplePoint 10 Null, samplePoint 20 Null] 10
       = Some (samplePoint 10 Null)"
proof -
  let ?dat = "[samplePoint 0 Null, samplePoint 10 Null, samplePoint 20 Null]"
  have s: "sorted_wrt (<) (map datetime ?dat)" by (simp add: samplePoint_def)
  have d: "datetime (samplePoint 10 Null) = 10" by (simp add: samplePoint_def)
  from closestPoint_exact[OF s, of 1] s d show ?thesis by simp
qed

section \<open>Properties of the SyncService\<close>




end
